theory Spec2Isabelle
  imports Complex_Main "HOL-Library.Multiset" "HOL-Library.Product_Lexorder"
begin

section \<open>Host-language values: characters, strings, numbers\<close>

text \<open>
  The program is JavaScript. A string is modelled as the list of its code units, and the
  model covers the code units 0 to 255; the white space of \<^verbatim>\<open>\s\<close> and of
  \<^verbatim>\<open>trim()\<close> in that range is TAB, LF, VT, FF, CR, SPACE and NBSP.
\<close>

definition isWhiteSpace :: "char \<Rightarrow> bool" where
  "isWhiteSpace c \<longleftrightarrow>
     c \<in> {CHR 0x09, CHR 0x0A, CHR 0x0B, CHR 0x0C, CHR 0x0D, CHR 0x20, CHR 0xA0}"

definition isDigit :: "char \<Rightarrow> bool" where
  "isDigit c \<longleftrightarrow> c \<in> set ''0123456789''"

text \<open>The word characters of \<^verbatim>\<open>\b\<close>: letters, digits and the underscore.\<close>

definition isWordChar :: "char \<Rightarrow> bool" where
  "isWordChar c \<longleftrightarrow>
     c \<in> set ''abcdefghijklmnopqrstuvwxyzABCDEFGHIJKLMNOPQRSTUVWXYZ0123456789_''"

text \<open>\<^verbatim>\<open>toUpperCase\<close> on one code unit, for the letters a to z.\<close>

definition toUpperCase :: "char \<Rightarrow> char" where
  "toUpperCase c =
     (case map_of (zip ''abcdefghijklmnopqrstuvwxyz'' ''ABCDEFGHIJKLMNOPQRSTUVWXYZ'') c of
        Some u \<Rightarrow> u
      | None \<Rightarrow> c)"

text \<open>
  A literal of a regular expression with the flag \<^verbatim>\<open>i\<close>, at the start of a string:
  \<open>lit\<close> is written in upper case.
\<close>

definition startsWithCI :: "string \<Rightarrow> string \<Rightarrow> bool" where
  "startsWithCI lit s \<longleftrightarrow>
     length lit \<le> length s \<and> map toUpperCase (take (length lit) s) = lit"

text \<open>\<^verbatim>\<open>\b\<close> after a word character: the text ends or goes on with a non-word character.\<close>

definition boundaryAfterWord :: "string \<Rightarrow> bool" where
  "boundaryAfterWord s \<longleftrightarrow> (case s of [] \<Rightarrow> True | c # _ \<Rightarrow> \<not> isWordChar c)"

definition trim :: "string \<Rightarrow> string" where
  "trim s = rev (dropWhile isWhiteSpace (rev (dropWhile isWhiteSpace s)))"

text \<open>
  \<^verbatim>\<open>s.split(/\s+/)\<close>: the pieces between maximal runs of white space; the empty string
  gives one empty piece, and a run at either end gives an empty piece there. The flag tells
  that the scan is inside a run; \<open>acc\<close> is the current piece, reversed.
\<close>

fun splitWs :: "bool \<Rightarrow> string \<Rightarrow> string \<Rightarrow> string list" where
  "splitWs inRun acc [] = [rev acc]"
| "splitWs inRun acc (c # cs) =
     (if isWhiteSpace c
      then (if inRun then splitWs True acc cs else rev acc # splitWs True [] cs)
      else splitWs False (c # acc) cs)"

definition split_ws :: "string \<Rightarrow> string list" where
  "split_ws s = splitWs False [] s"

text \<open>
  \<^verbatim>\<open>text.split(/\r?\n/)\<close>: the lines of a text; one CR right before the LF belongs to
  the separator.
\<close>

fun splitLines :: "string \<Rightarrow> string \<Rightarrow> string list" where
  "splitLines acc [] = [rev acc]"
| "splitLines acc (c # cs) =
     (if c = CHR 0x0A
      then rev (case acc of [] \<Rightarrow> [] | a # as \<Rightarrow> if a = CHR 0x0D then as else a # as)
             # splitLines [] cs
      else splitLines (c # acc) cs)"

definition split_lines :: "string \<Rightarrow> string list" where
  "split_lines s = splitLines [] s"

text \<open>
  A JavaScript number is a double: NaN, an infinity, or a finite value, which is a
  rational (the two zeros are one value here: the program never tells them apart).
  Comparisons with NaN are false.
\<close>

datatype jsnum = NaN | NegInf | Fin rat | PosInf

fun num_le :: "jsnum \<Rightarrow> jsnum \<Rightarrow> bool" where
  "num_le NaN _ = False"
| "num_le _ NaN = False"
| "num_le NegInf _ = True"
| "num_le _ PosInf = True"
| "num_le (Fin a) (Fin b) = (a \<le> b)"
| "num_le _ _ = False"

fun num_lt :: "jsnum \<Rightarrow> jsnum \<Rightarrow> bool" where
  "num_lt NaN _ = False"
| "num_lt _ NaN = False"
| "num_lt PosInf _ = False"
| "num_lt _ NegInf = False"
| "num_lt (Fin a) (Fin b) = (a < b)"
| "num_lt _ _ = True"

definition Math_min :: "jsnum \<Rightarrow> jsnum \<Rightarrow> jsnum" where
  "Math_min a b = (if a = NaN \<or> b = NaN then NaN else if num_le a b then a else b)"

definition Math_max :: "jsnum \<Rightarrow> jsnum \<Rightarrow> jsnum" where
  "Math_max a b = (if a = NaN \<or> b = NaN then NaN else if num_le a b then b else a)"

text \<open>
  \<^verbatim>\<open>a - b\<close>: the difference of two finite numbers has the sign of the exact difference
  (the value itself is rounded, which the program never reads); equal infinities give NaN.
\<close>

fun num_sub :: "jsnum \<Rightarrow> jsnum \<Rightarrow> jsnum" where
  "num_sub NaN _ = NaN"
| "num_sub _ NaN = NaN"
| "num_sub PosInf PosInf = NaN"
| "num_sub NegInf NegInf = NaN"
| "num_sub PosInf _ = PosInf"
| "num_sub NegInf _ = NegInf"
| "num_sub (Fin a) PosInf = NegInf"
| "num_sub (Fin a) NegInf = PosInf"
| "num_sub (Fin a) (Fin b) = Fin (a - b)"

text \<open>
  The number builtins of the language are not code of the program and round to doubles;
  the model takes them as a parameter: \<^verbatim>\<open>parseFloat\<close>, \<^verbatim>\<open>parseInt(s, 10)\<close>,
  \<^verbatim>\<open>x.toFixed(3)\<close> and the conversion of a number to a string.
\<close>

record builtins =
  parseFloat :: "string \<Rightarrow> jsnum"
  parseInt10 :: "string \<Rightarrow> jsnum"
  toFixed3 :: "jsnum \<Rightarrow> string"
  numToString :: "jsnum \<Rightarrow> string"

section \<open>Line\<close>

record coord =
  cx :: jsnum
  cy :: jsnum
  cz :: jsnum

definition origin :: coord where
  "origin = \<lparr>cx = Fin 0, cy = Fin 0, cz = Fin 0\<rparr>"

record Line =
  raw :: string
  ignored :: bool
  isFirst :: bool
  isComment :: bool
  startCoord :: coord
  endCoord :: coord
  isFastMove :: bool
  fastMoveReason :: string
  hasX :: bool
  hasY :: bool
  hasZ :: bool
  hasXY :: bool
  hasMotion :: bool
  tags :: "string list"

text \<open>\<^verbatim>\<open>/^(?:G90|G94|G17|G21|G54|M|T|S)/i\<close> on one token.\<close>

definition ignoredToken :: "string \<Rightarrow> bool" where
  "ignoredToken t \<longleftrightarrow>
     (\<exists>p \<in> set [''G90'', ''G94'', ''G17'', ''G21'', ''G54'', ''M'', ''T'', ''S''].
        startsWithCI p t)"

definition calcIgnored :: "string \<Rightarrow> bool" where
  "calcIgnored r =
     (let tokens = filter (\<lambda>t. t \<noteq> []) (split_ws (trim r))
      in if length tokens = 0 then False else list_all ignoredToken tokens)"

definition calcComment :: "string \<Rightarrow> bool" where
  "calcComment r \<longleftrightarrow> (case r of [] \<Rightarrow> False | c # _ \<Rightarrow> c = CHR ''('')"

text \<open>\<^verbatim>\<open>/[X]/i\<close>, \<^verbatim>\<open>/[Y]/i\<close>, \<^verbatim>\<open>/[Z]/i\<close>: the letter occurs somewhere in the text.\<close>

definition hasLetter :: "char \<Rightarrow> string \<Rightarrow> bool" where
  "hasLetter u r \<longleftrightarrow> (\<exists>c \<in> set r. toUpperCase c = u)"

text \<open>\<^verbatim>\<open>^(?:G0|G1)\b\<close>, with the flag \<^verbatim>\<open>i\<close> when \<open>ci\<close> holds.\<close>

definition startsG0G1 :: "bool \<Rightarrow> string \<Rightarrow> bool" where
  "startsG0G1 ci r \<longleftrightarrow>
     (case r of
        g # d # rest \<Rightarrow>
          (if ci then toUpperCase g = CHR ''G'' else g = CHR ''G'')
          \<and> (d = CHR ''0'' \<or> d = CHR ''1'') \<and> boundaryAfterWord rest
      | _ \<Rightarrow> False)"

definition newLine :: "string \<Rightarrow> Line" where
  "newLine r =
     \<lparr>raw = r,
      ignored = calcIgnored r,
      isFirst = False,
      isComment = calcComment r,
      startCoord = origin,
      endCoord = origin,
      isFastMove = False,
      fastMoveReason = [],
      hasX = hasLetter CHR ''X'' r,
      hasY = hasLetter CHR ''Y'' r,
      hasZ = hasLetter CHR ''Z'' r,
      hasXY = (hasLetter CHR ''X'' r \<or> hasLetter CHR ''Y'' r),
      hasMotion = (startsG0G1 True r \<or> hasLetter CHR ''X'' r \<or> hasLetter CHR ''Y'' r
                   \<or> hasLetter CHR ''Z'' r),
      tags = []\<rparr>"

text \<open>\<^verbatim>\<open>l.clone(raw)\<close>: a new line of the given text with the coordinates of \<open>l\<close>.\<close>

definition clone :: "Line \<Rightarrow> string \<Rightarrow> Line" where
  "clone l r = (newLine r)\<lparr>startCoord := startCoord l, endCoord := endCoord l\<rparr>"

text \<open>
  The tags of a line are the own keys of an object, kept here in insertion order;
  \<^verbatim>\<open>tags[t] = true\<close> adds the key when it is new.
\<close>

definition setTag :: "string \<Rightarrow> Line \<Rightarrow> Line" where
  "setTag t l = (if t \<in> set (tags l) then l else l\<lparr>tags := tags l @ [t]\<rparr>)"

definition matchTags :: "Line \<Rightarrow> string list \<Rightarrow> bool" where
  "matchTags l ts \<longleftrightarrow> list_all (\<lambda>t. t \<in> set (tags l)) ts"

section \<open>CommandProcessor: the position tracker\<close>

record CommandProcessor =
  cpx :: jsnum
  cpy :: jsnum
  cpz :: jsnum
  currentCommand :: string
  cpmin :: coord
  cpmax :: coord

definition newCommandProcessor :: CommandProcessor where
  "newCommandProcessor =
     \<lparr>cpx = Fin 0, cpy = Fin 0, cpz = Fin 5, currentCommand = [],
      cpmin = \<lparr>cx = Fin 0, cy = Fin 0, cz = Fin 5\<rparr>,
      cpmax = \<lparr>cx = Fin 0, cy = Fin 0, cz = Fin 5\<rparr>\<rparr>"

text \<open>
  The body of the loop over the tokens: a token that starts with an axis letter and whose
  rest parses to a number overwrites that axis.
\<close>

definition axisToken :: "builtins \<Rightarrow> coord \<Rightarrow> string \<Rightarrow> coord" where
  "axisToken b new t =
     (case t of
        [] \<Rightarrow> new
      | c # rest \<Rightarrow>
          if toUpperCase c \<in> set ''XYZ''
          then (let axis = toUpperCase c; val = parseFloat b rest
                in if val \<noteq> NaN
                   then \<lparr>cx = (if axis = CHR ''X'' then val else cx new),
                         cy = (if axis = CHR ''Y'' then val else cy new),
                         cz = (if axis = CHR ''Z'' then val else cz new)\<rparr>
                   else new)
          else new)"

definition processLine :: "builtins \<Rightarrow> CommandProcessor \<Rightarrow> Line \<Rightarrow> CommandProcessor \<times> coord \<times> coord" where
  "processLine b cp l =
     (let start = \<lparr>cx = cpx cp, cy = cpy cp, cz = cpz cp\<rparr>;
          cp1 = (if startsG0G1 False (raw l)
                 then cp\<lparr>currentCommand := take 2 (raw l)\<rparr> else cp);
          tokens = split_ws (trim (raw l));
          new = foldl (axisToken b) start tokens;
          cp2 = cp1\<lparr>cpx := cx new, cpy := cy new, cpz := cz new\<rparr>;
          cp3 = cp2\<lparr>cpmin := \<lparr>cx = Math_min (cx (cpmin cp2)) (cpx cp2),
                                cy = Math_min (cy (cpmin cp2)) (cpy cp2),
                                cz = Math_min (cz (cpmin cp2)) (cpz cp2)\<rparr>,
                     cpmax := \<lparr>cx = Math_max (cx (cpmax cp2)) (cpx cp2),
                                cy = Math_max (cy (cpmax cp2)) (cpy cp2),
                                cz = Math_max (cz (cpmax cp2)) (cpz cp2)\<rparr>\<rparr>;
          end = \<lparr>cx = cpx cp3, cy = cpy cp3, cz = cpz cp3\<rparr>
      in (cp3, start, end))"


section \<open>Fast-move classification\<close>

text \<open>
  The body of the loop of \<^verbatim>\<open>loadFiles\<close> over the lines of a file that allows fast
  moves, after the coordinates of the line are set.
\<close>

definition classifyLine :: "builtins \<Rightarrow> Line \<Rightarrow> Line" where
  "classifyLine b l =
     (let start = startCoord l; end = endCoord l;
          anyXY = (hasX l \<or> hasY l)
      in if anyXY \<and> num_le (Fin 0) (cz start) \<and> num_le (Fin 0) (cz end)
         then l\<lparr>isFastMove := True,
                 fastMoveReason :=
                   ''anyXY{'' @ (if anyXY then ''true'' else ''false'')
                   @ ''} && start.z{'' @ numToString b (cz start)
                   @ ''} >= 0 && end.z{'' @ numToString b (cz end) @ ''} >= 0''\<rparr>
         else if \<not> anyXY \<and> hasZ l \<and> num_lt (cz start) (cz end) \<and> num_le (Fin 0) (cz end)
         then l\<lparr>isFastMove := True\<rparr>
         else l\<lparr>isFastMove := False\<rparr>)"

fun trackLines :: "builtins \<Rightarrow> CommandProcessor \<Rightarrow> Line list \<Rightarrow> CommandProcessor \<times> Line list" where
  "trackLines b cp [] = (cp, [])"
| "trackLines b cp (l # ls) =
     (case processLine b cp l of
        (cp1, start, end) \<Rightarrow>
          (case trackLines b cp1 ls of
             (cp2, ls1) \<Rightarrow>
               (cp2, classifyLine b (l\<lparr>startCoord := start, endCoord := end\<rparr>) # ls1)))"

section \<open>FileObject\<close>

text \<open>
  An array of lines is an object that several places can refer to: the store maps a
  reference to the content of the array.
\<close>

type_synonym ref = nat

record store =
  arrays :: "ref \<Rightarrow> Line list"
  nextRef :: ref

definition emptyStore :: store where
  "emptyStore = \<lparr>arrays = (\<lambda>_. []), nextRef = 0\<rparr>"

definition newArray :: "Line list \<Rightarrow> store \<Rightarrow> ref \<times> store" where
  "newArray ls st =
     (nextRef st, st\<lparr>arrays := (arrays st)(nextRef st := ls), nextRef := Suc (nextRef st)\<rparr>)"

text \<open>
  The fields \<^verbatim>\<open>name\<close> and \<^verbatim>\<open>zo\<close> of the source are computed and never read; they
  are left out. The field \<^verbatim>\<open>setup\<close> is \<open>setupName\<close> here, and \<^verbatim>\<open>null\<close> is \<open>None\<close>.
  The operation index is the number that \<^verbatim>\<open>parseInt\<close> gives.
\<close>

record FileObject =
  path :: string
  lines :: ref
  tool :: string
  setupName :: "string option"
  operation :: jsnum
  isDrilling :: bool
  allowFastMoves :: bool
  commandProcessor :: "CommandProcessor option"

text \<open>
  \<^verbatim>\<open>/^\s*\((.*)\)\s*$/\<close>: the text between the first parenthesis and the last one, when
  only white space follows it and no line terminator lies between them.
\<close>

definition commentMatch :: "string \<Rightarrow> string option" where
  "commentMatch r =
     (case dropWhile isWhiteSpace r of
        [] \<Rightarrow> None
      | c # t \<Rightarrow>
          (let u = rev (dropWhile isWhiteSpace (rev t))
           in if c = CHR ''('' \<and> u \<noteq> [] \<and> last u = CHR '')''
                 \<and> (\<forall>d \<in> set (butlast u). d \<noteq> CHR 0x0A \<and> d \<noteq> CHR 0x0D)
              then Some (butlast u) else None))"

text \<open>\<^verbatim>\<open>/^\s*T(\d+)/i\<close> on the first line that matches; \<^verbatim>\<open>T?\<close> when none does.\<close>

definition toolMatch :: "string \<Rightarrow> string option" where
  "toolMatch r =
     (case dropWhile isWhiteSpace r of
        [] \<Rightarrow> None
      | c # t \<Rightarrow>
          if toUpperCase c = CHR ''T'' \<and> takeWhile isDigit t \<noteq> []
          then Some (takeWhile isDigit t) else None)"

fun extractTool :: "Line list \<Rightarrow> string" where
  "extractTool [] = ''T?''"
| "extractTool (l # ls) =
     (case toolMatch (raw l) of Some m \<Rightarrow> ''T'' @ m | None \<Rightarrow> extractTool ls)"

text \<open>
  \<^verbatim>\<open>/(?:^|\s)SETUP=([^\s)]+)/i\<close> inside a comment: the leftmost place, at the start or
  after a white space, where the key is followed by a value.
\<close>

fun findSetup :: "bool \<Rightarrow> string \<Rightarrow> string option" where
  "findSetup ok [] = None"
| "findSetup ok (c # cs) =
     (let v = takeWhile (\<lambda>d. \<not> isWhiteSpace d \<and> d \<noteq> CHR '')'') (drop 6 (c # cs))
      in if ok \<and> startsWithCI ''SETUP='' (c # cs) \<and> v \<noteq> [] then Some v
         else findSetup (isWhiteSpace c) cs)"

fun extractSetup :: "Line list \<Rightarrow> string option" where
  "extractSetup [] = None"
| "extractSetup (l # ls) =
     (case commentMatch (raw l) of
        None \<Rightarrow> extractSetup ls
      | Some body \<Rightarrow>
          (case findSetup True body of Some v \<Rightarrow> Some v | None \<Rightarrow> extractSetup ls))"

definition digitsToNat :: "string \<Rightarrow> nat" where
  "digitsToNat ds = foldl (\<lambda>n d. 10 * n + (of_char d - 48)) 0 ds"

text \<open>
  \<^verbatim>\<open>/\bop\s*(\d+)/i\<close> on the path: the digits of the leftmost match. The flag tells that
  the character before is a word character.
\<close>

fun findOp :: "bool \<Rightarrow> string \<Rightarrow> string option" where
  "findOp pw [] = None"
| "findOp pw (c # cs) =
     (let ds = takeWhile isDigit (dropWhile isWhiteSpace (drop 1 cs))
      in if \<not> pw \<and> startsWithCI ''OP'' (c # cs) \<and> ds \<noteq> [] then Some ds
         else findOp (isWordChar c) cs)"

definition extractOperation :: "builtins \<Rightarrow> string \<Rightarrow> jsnum option" where
  "extractOperation b filePath =
     (case findOp False filePath of None \<Rightarrow> None | Some m1 \<Rightarrow> Some (parseInt10 b m1))"

text \<open>\<^verbatim>\<open>x || 0\<close> on a number: NaN and 0 are falsy.\<close>

definition orZero :: "jsnum \<Rightarrow> jsnum" where
  "orZero v = (if v = NaN \<or> v = Fin 0 then Fin 0 else v)"

fun extractIsDrilling :: "Line list \<Rightarrow> bool" where
  "extractIsDrilling [] = False"
| "extractIsDrilling (l # ls) =
     (case commentMatch (raw l) of
        None \<Rightarrow> extractIsDrilling ls
      | Some body \<Rightarrow> if startsWithCI ''DRILL'' body then True else extractIsDrilling ls)"

definition newFileObject :: "builtins \<Rightarrow> string \<Rightarrow> ref \<Rightarrow> Line list \<Rightarrow> FileObject" where
  "newFileObject b filePath r ls =
     \<lparr>path = filePath,
      lines = r,
      tool = extractTool ls,
      setupName = extractSetup ls,
      operation = (case extractOperation b filePath of None \<Rightarrow> Fin 0 | Some n \<Rightarrow> orZero n),
      isDrilling = extractIsDrilling ls,
      allowFastMoves = (\<not> extractIsDrilling ls),
      commandProcessor = None\<rparr>"

section \<open>loadFiles\<close>

text \<open>The first line that matches \<^verbatim>\<open>/^\s*(G0|G1)\b/i\<close> is flagged.\<close>

fun flagFirst :: "Line list \<Rightarrow> Line list" where
  "flagFirst [] = []"
| "flagFirst (l # ls) =
     (if startsG0G1 True (dropWhile isWhiteSpace (raw l))
      then l\<lparr>isFirst := True\<rparr> # ls else l # flagFirst ls)"

text \<open>
  The body of the loop over the paths, for a path that is no definition file. The lines
  are objects of the array of the file: tracking them in place is an update of the array.
\<close>

definition loadFile :: "builtins \<Rightarrow> string \<Rightarrow> string \<Rightarrow> store \<Rightarrow> FileObject \<times> store" where
  "loadFile b filePath content st =
     (let rawLines = split_lines content;
          lineObjs = flagFirst (map newLine rawLines)
      in case newArray lineObjs st of
           (r, st1) \<Rightarrow>
             (let fo = newFileObject b filePath r lineObjs
              in if allowFastMoves fo
                 then (case trackLines b newCommandProcessor lineObjs of
                         (cp, ls) \<Rightarrow>
                           (fo\<lparr>commandProcessor := Some cp\<rparr>,
                            st1\<lparr>arrays := (arrays st1)(r := ls)\<rparr>))
                 else (fo, st1)))"

text \<open>
  \<open>readFile\<close> gives the text of the file at a path; \<open>defFiles\<close> are the paths of the
  definition files.
\<close>

fun loadFiles :: "builtins \<Rightarrow> (string \<Rightarrow> string) \<Rightarrow> string list \<Rightarrow> string list \<Rightarrow> store
    \<Rightarrow> FileObject list \<times> store" where
  "loadFiles b readFile defFiles [] st = ([], st)"
| "loadFiles b readFile defFiles (p # ps) st =
     (if p \<in> set defFiles then loadFiles b readFile defFiles ps st
      else (case loadFile b p (readFile p) st of
              (fo, st1) \<Rightarrow>
                (case loadFiles b readFile defFiles ps st1 of
                   (fos, st2) \<Rightarrow> (fo # fos, st2))))"

section \<open>Tool dictionary\<close>

text \<open>
  \<^verbatim>\<open>/^\s*\(\s*T(\d+)\s+D=([\d.]+)/i\<close> on one line of text: the digits of the tool and the
  text of the diameter.
\<close>

definition toolDefMatch :: "string \<Rightarrow> (string \<times> string) option" where
  "toolDefMatch s =
     (case dropWhile isWhiteSpace s of
        [] \<Rightarrow> None
      | p # s1 \<Rightarrow>
          (case dropWhile isWhiteSpace s1 of
             [] \<Rightarrow> None
           | t # s2 \<Rightarrow>
               (let ds = takeWhile isDigit s2;
                    s3 = dropWhile isDigit s2;
                    s4 = dropWhile isWhiteSpace s3;
                    m2 = takeWhile (\<lambda>c. isDigit c \<or> c = CHR ''.'') (drop 2 s4)
                in if p = CHR ''('' \<and> toUpperCase t = CHR ''T'' \<and> ds \<noteq> []
                      \<and> length s4 < length s3 \<and> startsWithCI ''D='' s4 \<and> m2 \<noteq> []
                   then Some (ds, m2) else None)))"

text \<open>The inner loop of \<^verbatim>\<open>buildToolDict\<close>: the first line of the file that matches.\<close>

fun firstToolDef :: "string list \<Rightarrow> (string \<times> string) option" where
  "firstToolDef [] = None"
| "firstToolDef (s # ss) =
     (case toolDefMatch s of Some m \<Rightarrow> Some m | None \<Rightarrow> firstToolDef ss)"

record toolEntry =
  diameter :: jsnum
  definitionFilename :: string

type_synonym toolDict = "string \<rightharpoonup> toolEntry"

fun buildToolDictLoop :: "builtins \<Rightarrow> (string \<Rightarrow> string) \<Rightarrow> string list
    \<Rightarrow> toolDict \<times> string list \<Rightarrow> toolDict \<times> string list" where
  "buildToolDictLoop b readFile [] (td, defFiles) = (td, defFiles)"
| "buildToolDictLoop b readFile (p # ps) (td, defFiles) =
     (case firstToolDef (split_lines (readFile p)) of
        None \<Rightarrow> buildToolDictLoop b readFile ps (td, defFiles)
      | Some (m1, m2) \<Rightarrow>
          (let toolKey = ''T'' @ m1;
               dia = parseFloat b m2;
               td1 = (if td toolKey \<noteq> None then td
                      else td(toolKey \<mapsto> \<lparr>diameter = dia, definitionFilename = p\<rparr>))
           in buildToolDictLoop b readFile ps (td1, defFiles @ [p])))"

definition buildToolDict :: "builtins \<Rightarrow> (string \<Rightarrow> string) \<Rightarrow> string list
    \<Rightarrow> toolDict \<times> string list" where
  "buildToolDict b readFile ncPaths = buildToolDictLoop b readFile ncPaths (Map.empty, [])"

section \<open>Merge helpers\<close>

text \<open>
  \<^verbatim>\<open>files.slice().sort((a, b) => (a.operation || 0) - (b.operation || 0))\<close>. The sort of
  the language is stable, and with a comparator that orders its arguments consistently, as
  this one does, its result is the one sorted list that keeps ties in their order; the
  model computes that list by insertion from the right. An element goes behind another when
  the comparator is positive; a comparator of 0 or NaN is a tie.
\<close>

definition compareOperation :: "FileObject \<Rightarrow> FileObject \<Rightarrow> jsnum" where
  "compareOperation a b = num_sub (orZero (operation a)) (orZero (operation b))"

fun insertSorted :: "('a \<Rightarrow> 'a \<Rightarrow> jsnum) \<Rightarrow> 'a \<Rightarrow> 'a list \<Rightarrow> 'a list" where
  "insertSorted cmp x [] = [x]"
| "insertSorted cmp x (y # ys) =
     (if num_lt (Fin 0) (cmp x y) then y # insertSorted cmp x ys else x # y # ys)"

definition stableSort :: "('a \<Rightarrow> 'a \<Rightarrow> jsnum) \<Rightarrow> 'a list \<Rightarrow> 'a list" where
  "stableSort cmp xs = foldr (insertSorted cmp) xs []"

definition sortByOperation :: "FileObject list \<Rightarrow> FileObject list" where
  "sortByOperation files = stableSort compareOperation files"

definition groupKey :: "FileObject \<Rightarrow> string" where
  "groupKey f =
     (case setupName f of
        None \<Rightarrow> ''unknown''
      | Some s \<Rightarrow> if s = [] then ''unknown'' else s) @ ''||'' @ tool f"

text \<open>A \<^verbatim>\<open>Map\<close> keeps its keys in the order of their first insertion.\<close>

fun groupPush :: "string \<Rightarrow> FileObject \<Rightarrow> (string \<times> FileObject list) list
    \<Rightarrow> (string \<times> FileObject list) list" where
  "groupPush k f [] = [(k, [f])]"
| "groupPush k f ((k1, g) # m) =
     (if k1 = k then (k1, g @ [f]) # m else (k1, g) # groupPush k f m)"

definition groupBySetupAndTool :: "FileObject list \<Rightarrow> (string \<times> FileObject list) list" where
  "groupBySetupAndTool files = foldl (\<lambda>m f. groupPush (groupKey f) f m) [] files"

record params =
  fr :: "jsnum option"
  filterTags :: "string list"
  filtered :: bool

definition DEFAULT_FEED_RATE :: jsnum where
  "DEFAULT_FEED_RATE = Fin 500"

text \<open>
  \<^verbatim>\<open>/\bF\d+(\.\d+)?\b/gi\<close> right after an \<^verbatim>\<open>F\<close>: the length of the match behind the
  letter. The digits are taken greedily; the fraction belongs to the match when a word
  boundary follows it, and else the match ends before the point.
\<close>

definition feedMatch :: "string \<Rightarrow> nat option" where
  "feedMatch cs =
     (let ds = takeWhile isDigit cs;
          r1 = dropWhile isDigit cs;
          fs = takeWhile isDigit (drop 1 r1);
          r2 = dropWhile isDigit (drop 1 r1)
      in if ds = [] then None
         else if take 1 r1 = ''.'' \<and> fs \<noteq> [] \<and> boundaryAfterWord r2
         then Some (length ds + 1 + length fs)
         else if boundaryAfterWord r1 then Some (length ds) else None)"

text \<open>
  The replacement of every match by \<open>r\<close>; \<open>pw\<close> tells that the character before is a
  word character, so that no match starts here.
\<close>

function replaceFeed :: "string \<Rightarrow> bool \<Rightarrow> string \<Rightarrow> string" where
  "replaceFeed r pw [] = []"
| "replaceFeed r pw (c # cs) =
     (if \<not> pw \<and> toUpperCase c = CHR ''F''
      then (case feedMatch cs of
              Some n \<Rightarrow> r @ replaceFeed r True (drop n cs)
            | None \<Rightarrow> c # replaceFeed r (isWordChar c) cs)
      else c # replaceFeed r (isWordChar c) cs)"
  by pat_completeness auto
termination
  by (relation "measure (\<lambda>(r, pw, s). length s)") auto

definition processFeedRate :: "builtins \<Rightarrow> params \<Rightarrow> string \<Rightarrow> string" where
  "processFeedRate b ps line =
     (case fr ps of
        None \<Rightarrow> line
      | Some v \<Rightarrow> replaceFeed (''F'' @ numToString b v) False line)"

definition parseTags :: "Line \<Rightarrow> Line" where
  "parseTags l =
     (let l1 = (if isFastMove l then setTag ''FAST'' l else l);
          axes = (if hasX l then ''X'' else '''') @ (if hasY l then ''Y'' else '''')
                 @ (if hasZ l then ''Z'' else '''');
          l2 = setTag axes l1
      in if num_le (Fin 0) (cz (startCoord l)) \<and> num_le (Fin 0) (cz (endCoord l))
         then setTag ''UNENGAGED'' l2 else l2)"

text \<open>The synthetic line that resets the modal state: a clone with the text \<^verbatim>\<open>G1\<close> and one tag.\<close>

definition resetLine :: "Line \<Rightarrow> Line" where
  "resetLine l = setTag ''RESET-FR'' (clone l ''G1'')"

text \<open>
  The loop of \<^verbatim>\<open>addTagsToLines\<close> over the lines of one member: \<open>lastWasFast\<close> and the
  content of the output array are threaded through.
\<close>

fun tagLines :: "FileObject \<Rightarrow> Line list \<Rightarrow> bool \<Rightarrow> Line list \<Rightarrow> Line list" where
  "tagLines fItem [] lastWasFast output = output"
| "tagLines fItem (l # ls) lastWasFast output =
     (if \<not> ignored l \<and> \<not> isComment l
      then (if length (trim (raw l)) = 0 then tagLines fItem ls lastWasFast output
            else (let l1 = parseTags l
                  in if allowFastMoves fItem
                     then (if isFastMove l1 then tagLines fItem ls True (output @ [l1])
                           else if lastWasFast
                           then tagLines fItem ls False (output @ [resetLine l1, l1])
                           else tagLines fItem ls lastWasFast (output @ [l1]))
                     else tagLines fItem ls lastWasFast (output @ [l1])))
      else tagLines fItem ls lastWasFast output)"

text \<open>
  The loop over the members. The array \<open>out\<close> is made once, before the loop; every member
  pushes to it, and the field \<open>lines\<close> of every member is set to refer to it. (The lines
  that \<^verbatim>\<open>parseTags\<close> changes are objects of the old array of the member too; nothing
  reads that array afterwards, and the model leaves it as it was.)
\<close>

fun addTagsLoop :: "ref \<Rightarrow> FileObject list \<Rightarrow> store \<Rightarrow> FileObject list \<times> store" where
  "addTagsLoop out [] st = ([], st)"
| "addTagsLoop out (fItem # fs) st =
     (let output = tagLines fItem (arrays st (lines fItem)) False (arrays st out);
          st1 = st\<lparr>arrays := (arrays st)(out := output)\<rparr>
      in case addTagsLoop out fs st1 of
           (fs1, st2) \<Rightarrow> (fItem\<lparr>lines := out\<rparr> # fs1, st2))"

definition addTagsToLines :: "FileObject list \<Rightarrow> store \<Rightarrow> FileObject list \<times> store" where
  "addTagsToLines grp st = (case newArray [] st of (out, st0) \<Rightarrow> addTagsLoop out grp st0)"

section \<open>buildContentLines\<close>

definition padEnd :: "string \<Rightarrow> nat \<Rightarrow> string" where
  "padEnd s n = s @ replicate (n - length s) CHR '' ''"

definition padStart :: "string \<Rightarrow> nat \<Rightarrow> string" where
  "padStart s n = replicate (n - length s) CHR '' '' @ s"

text \<open>
  \<^verbatim>\<open>s.padEnd(t)\<close> with a string \<open>t\<close> for the length: the string is converted to a
  number, and what is no number gives the length 0. Of the numeric strings the model reads
  the runs of digits; every other string counts as no number (the call site of the program
  passes a string with \<^verbatim>\<open>; \<close> in it, which is none).
\<close>

definition padEndString :: "string \<Rightarrow> string \<Rightarrow> string" where
  "padEndString s t =
     padEnd s (if t \<noteq> [] \<and> list_all isDigit t then digitsToNat t else 0)"

fun join :: "string \<Rightarrow> string list \<Rightarrow> string" where
  "join sep [] = []"
| "join sep [x] = x"
| "join sep (x # y # ys) = x @ sep @ join sep (y # ys)"

definition fixed8 :: "builtins \<Rightarrow> jsnum \<Rightarrow> string" where
  "fixed8 b v = padStart (toFixed3 b v) 8"

definition statsLine :: "string \<Rightarrow> string \<Rightarrow> string \<Rightarrow> string \<Rightarrow> string" where
  "statsLine label sx sy sz =
     ''('' @ padEnd '' '' 46 @ label @ '': '' @ padEnd '' '' 26 @ sx @ '' '' @ sy @ '' '' @ sz @ '')''"

fun aggregateLoop :: "FileObject list \<Rightarrow> coord \<times> coord \<Rightarrow> coord \<times> coord" where
  "aggregateLoop [] (mn, mx) = (mn, mx)"
| "aggregateLoop (f # fs) (mn, mx) =
     (case commandProcessor f of
        None \<Rightarrow> aggregateLoop fs (mn, mx)
      | Some stats \<Rightarrow>
          aggregateLoop fs
            (\<lparr>cx = Math_min (cx mn) (cx (cpmin stats)),
              cy = Math_min (cy mn) (cy (cpmin stats)),
              cz = Math_min (cz mn) (cz (cpmin stats))\<rparr>,
             \<lparr>cx = Math_max (cx mx) (cx (cpmax stats)),
              cy = Math_max (cy mx) (cy (cpmax stats)),
              cz = Math_max (cz mx) (cz (cpmax stats))\<rparr>))"

definition aggregateStats :: "FileObject list \<Rightarrow> coord \<times> coord" where
  "aggregateStats files =
     aggregateLoop files
       (\<lparr>cx = PosInf, cy = PosInf, cz = PosInf\<rparr>, \<lparr>cx = NegInf, cy = NegInf, cz = NegInf\<rparr>)"

text \<open>
  \<^verbatim>\<open>raw.replace(/^\s*(G1\b)/i, 'G0')\<close>, then \<^verbatim>\<open>G0 \<close> in front unless
  \<^verbatim>\<open>/^\s*(G0\b)/i\<close> matches.
\<close>

definition startsG :: "char \<Rightarrow> string \<Rightarrow> bool" where
  "startsG d s \<longleftrightarrow>
     (case dropWhile isWhiteSpace s of
        g # e # rest \<Rightarrow> toUpperCase g = CHR ''G'' \<and> e = d \<and> boundaryAfterWord rest
      | _ \<Rightarrow> False)"

definition rapid :: "string \<Rightarrow> string" where
  "rapid r =
     (let rawFast = (if startsG CHR ''1'' r then ''G0'' @ drop 2 (dropWhile isWhiteSpace r) else r)
      in if \<not> startsG CHR ''0'' rawFast then ''G0 '' @ dropWhile isWhiteSpace rawFast
         else rawFast)"

definition coordsText :: "builtins \<Rightarrow> coord \<Rightarrow> string" where
  "coordsText b c = join '' '' (map (fixed8 b) [cx c, cy c, cz c])"

text \<open>
  The body of the loop over the lines of a member: the strings that it pushes for one
  line. In the last branch the whole suffix is the argument of \<^verbatim>\<open>padEnd\<close>.
\<close>

definition contentLine :: "builtins \<Rightarrow> params \<Rightarrow> FileObject \<Rightarrow> Line \<Rightarrow> string list" where
  "contentLine b ps fItem l =
     (if \<not> ignored l \<and> \<not> isComment l
      then (if length (trim (raw l)) = 0 then ['''']
            else if filtered ps \<and> \<not> matchTags l (filterTags ps) then []
            else (let lineTags = tags l;
                      coords = coordsText b (startCoord l) @ [CHR 0x09] @ coordsText b (endCoord l);
                      raw1 = processFeedRate b ps (raw l)
                  in if allowFastMoves fItem
                     then (if isFastMove l
                           then [padEnd (rapid raw1) 50 @ ''; '' @ coords @ '' # '' @ join '' '' lineTags]
                           else [padEnd raw1 50 @ ''; '' @ coords @ '' # '' @ join '' '' lineTags])
                     else [padEndString raw1
                             (''50'' @ ''; '' @ coords @ '' # '' @ join '' '' lineTags)]))
      else [])"

text \<open>
  The body of the loop over the members: the strings pushed for one member, and the
  counter of the statistics blocks.
\<close>

definition memberBlock :: "builtins \<Rightarrow> params \<Rightarrow> store \<Rightarrow> nat \<Rightarrow> FileObject \<Rightarrow> string list \<times> nat" where
  "memberBlock b ps st fileCnt fItem =
     (let ls = arrays st (lines fItem);
          comments = map raw (filter isComment ls);
          stats = (case commandProcessor fItem of
                     None \<Rightarrow> []
                   | Some cp \<Rightarrow>
                       [''; FILE '' @ numToString b (Fin (of_nat (Suc fileCnt))) @ '' STATS'',
                        statsLine ''MIN'' (fixed8 b (cx (cpmin cp))) (fixed8 b (cy (cpmin cp)))
                          (fixed8 b (cz (cpmin cp))),
                        statsLine ''MAX'' (fixed8 b (cx (cpmax cp))) (fixed8 b (cy (cpmax cp)))
                          (fixed8 b (cz (cpmax cp))),
                        ''''])
      in ([''G0 Z5'' @ [CHR 0x0A, CHR 0x0A]]
          @ comments @ (if length comments > 0 then [[CHR 0x0A]] else [])
          @ stats
          @ concat (map (contentLine b ps fItem) ls)
          @ replicate 10 '''',
          (case commandProcessor fItem of None \<Rightarrow> fileCnt | Some cp \<Rightarrow> Suc fileCnt)))"

definition preamble :: "builtins \<Rightarrow> params \<Rightarrow> FileObject list \<Rightarrow> string list" where
  "preamble b ps grp =
     (let feed = (case fr ps of
                    None \<Rightarrow> DEFAULT_FEED_RATE
                  | Some v \<Rightarrow> if v = NaN \<or> v = Fin 0 then DEFAULT_FEED_RATE else v)
      in case aggregateStats grp of
           (mn, mx) \<Rightarrow>
             ['''', ''G90 G94 G17 G21 G54 F'' @ numToString b feed, '''',
              ''; AGGREGATE STATS - ALL FILES'',
              statsLine ''MIN'' (fixed8 b (cx mn)) (fixed8 b (cy mn)) (fixed8 b (cz mn)),
              statsLine ''MAX'' (fixed8 b (cx mx)) (fixed8 b (cy mx)) (fixed8 b (cz mx)),
              ''''])"

text \<open>
  The loop over the members: the content lines so far, the map \<^verbatim>\<open>startLines\<close> from the
  path of a member to the number of the line where its block starts, and the counter.
\<close>

fun contentLoop :: "builtins \<Rightarrow> params \<Rightarrow> store \<Rightarrow> FileObject list
    \<Rightarrow> string list \<times> (string \<rightharpoonup> nat) \<times> nat \<Rightarrow> string list \<times> (string \<rightharpoonup> nat) \<times> nat" where
  "contentLoop b ps st [] (contentLines, startLines, fileCnt) = (contentLines, startLines, fileCnt)"
| "contentLoop b ps st (fItem # fs) (contentLines, startLines, fileCnt) =
     (case memberBlock b ps st fileCnt fItem of
        (blk, cnt) \<Rightarrow>
          contentLoop b ps st fs
            (contentLines @ blk, startLines(path fItem \<mapsto> length contentLines + 1), cnt))"

definition buildContentLines :: "builtins \<Rightarrow> params \<Rightarrow> store \<Rightarrow> FileObject list
    \<Rightarrow> string list \<times> (string \<rightharpoonup> nat)" where
  "buildContentLines b ps st grp =
     (case contentLoop b ps st grp (preamble b ps grp, Map.empty, 0) of
        (contentLines, startLines, fileCnt) \<Rightarrow>
          (contentLines @ [''G0 Z5'', ''G0 X0 Y0''], startLines))"

section \<open>mergeBySetupAndTool\<close>

text \<open>
  \<^verbatim>\<open>path.basename\<close> (POSIX) of the path of a file: separators at the end are dropped,
  and what follows the last separator that remains is the name.
\<close>

definition basename :: "string \<Rightarrow> string" where
  "basename p =
     rev (takeWhile (\<lambda>c. c \<noteq> CHR ''/'') (dropWhile (\<lambda>c. c = CHR ''/'') (rev p)))"

definition headerLine :: "builtins \<Rightarrow> nat \<Rightarrow> (string \<rightharpoonup> nat) \<Rightarrow> FileObject \<Rightarrow> string" where
  "headerLine b headerLen startLines fItem =
     (let start = (case startLines (path fItem) of
                     None \<Rightarrow> NaN
                   | Some n \<Rightarrow> Fin (of_nat (headerLen + n)))
      in ''('' @ padStart (numToString b start) 5 @ '' - '' @ basename (path fItem) @ '')'')"

text \<open>
  The body of the loop over the groups: the lines of the merged file of one group. (The
  folder and the name of the file, which come from the setup numbers and the tool
  dictionary, and the writing of the file are left out.)
\<close>

definition mergeGroup :: "builtins \<Rightarrow> params \<Rightarrow> FileObject list \<Rightarrow> store \<Rightarrow> string list \<times> store" where
  "mergeGroup b ps grp st =
     (case addTagsToLines grp st of
        (grp1, st1) \<Rightarrow>
          (case buildContentLines b ps st1 grp1 of
             (contentLines, startLines) \<Rightarrow>
               (let headerLen = length [''(MERGED)'', ''''] + length grp1;
                    headerLines = [''(MERGED)'', '''']
                                  @ map (headerLine b headerLen startLines) grp1
                in (headerLines @ contentLines, st1))))"

fun mergeLoop :: "builtins \<Rightarrow> params \<Rightarrow> (string \<times> FileObject list) list \<Rightarrow> store
    \<Rightarrow> (string \<times> string list) list" where
  "mergeLoop b ps [] st = []"
| "mergeLoop b ps ((key, grp) # groups) st =
     (case mergeGroup b ps grp st of
        (merged, st1) \<Rightarrow> (key, merged) # mergeLoop b ps groups st1)"

definition mergeBySetupAndTool :: "builtins \<Rightarrow> params \<Rightarrow> FileObject list \<Rightarrow> store
    \<Rightarrow> (string \<times> string list) list" where
  "mergeBySetupAndTool b ps fileList st =
     mergeLoop b ps (groupBySetupAndTool (sortByOperation fileList)) st"


section \<open>A decimal instance of the number builtins\<close>

text \<open>
  For running the model on examples: \<^verbatim>\<open>parseFloat\<close> and \<^verbatim>\<open>parseInt\<close> as the
  exact value of the longest prefix that is a decimal literal or a decimal integer, and
  the two formatters on exact values. The builtins
  of the language round the value to a double (and \<^verbatim>\<open>toFixed\<close> and the conversion to a
  string change to exponent notation from \<open>10 ^ 21\<close> on, the latter below \<open>10 ^ - 6\<close>
  as well); the instance agrees with them where no rounding occurs, as on the integers and
  the short decimals of the examples below. The theorems about all inputs hold for every
  instance of the builtins.
\<close>

definition digitChar :: "nat \<Rightarrow> char" where
  "digitChar d = ''0123456789'' ! d"

fun natToDigits :: "nat \<Rightarrow> string" where
  "natToDigits n = (if n < 10 then [digitChar n] else natToDigits (n div 10) @ [digitChar (n mod 10)])"

definition signOf :: "string \<Rightarrow> bool \<times> string" where
  "signOf s = (case s of [] \<Rightarrow> (False, [])
      | c # cs \<Rightarrow> if c = CHR ''-'' then (True, cs) else if c = CHR ''+'' then (False, cs) else (False, c # cs))"

definition exponentOf :: "string \<Rightarrow> int" where
  "exponentOf s =
     (case s of
        [] \<Rightarrow> 0
      | c # cs \<Rightarrow>
          if c = CHR ''e'' \<or> c = CHR ''E''
          then (case signOf cs of
                  (neg, ds) \<Rightarrow>
                    (let e = int (digitsToNat (takeWhile isDigit ds))
                     in if neg then - e else e))
          else 0)"

definition scale10 :: "rat \<Rightarrow> int \<Rightarrow> rat" where
  "scale10 q e = (if 0 \<le> e then q * 10 ^ nat e else q / 10 ^ nat (- e))"

definition parseFloat_dec :: "string \<Rightarrow> jsnum" where
  "parseFloat_dec s =
     (case signOf (dropWhile isWhiteSpace s) of
        (neg, u) \<Rightarrow>
          if take 8 u = ''Infinity'' then (if neg then NegInf else PosInf)
          else (let ip = takeWhile isDigit u;
                    r1 = dropWhile isDigit u;
                    fp = (case r1 of [] \<Rightarrow> [] | c # cs \<Rightarrow> if c = CHR ''.'' then takeWhile isDigit cs else []);
                    r2 = (case r1 of [] \<Rightarrow> [] | c # cs \<Rightarrow> if c = CHR ''.'' then dropWhile isDigit cs else r1);
                    m = of_nat (digitsToNat (ip @ fp)) / 10 ^ length fp;
                    v = scale10 m (exponentOf r2)
                in if ip = [] \<and> fp = [] then NaN else Fin (if neg then - v else v)))"

definition toFixed3_dec :: "jsnum \<Rightarrow> string" where
  "toFixed3_dec v =
     (case v of
        NaN \<Rightarrow> ''NaN''
      | PosInf \<Rightarrow> ''Infinity''
      | NegInf \<Rightarrow> ''-Infinity''
      | Fin q \<Rightarrow>
          (let n = nat \<lfloor>\<bar>q\<bar> * 1000 + 1 / 2\<rfloor>;
               f = natToDigits (n mod 1000)
           in (if q < 0 then ''-'' else '''') @ natToDigits (n div 1000) @ ''.''
              @ replicate (3 - length f) CHR ''0'' @ f))"

fun fracDigits :: "nat \<Rightarrow> rat \<Rightarrow> string" where
  "fracDigits 0 r = []"
| "fracDigits (Suc k) r =
     (if r = 0 then []
      else digitChar (nat \<lfloor>r * 10\<rfloor>) # fracDigits k (r * 10 - of_int \<lfloor>r * 10\<rfloor>))"

definition numToString_dec :: "jsnum \<Rightarrow> string" where
  "numToString_dec v =
     (case v of
        NaN \<Rightarrow> ''NaN''
      | PosInf \<Rightarrow> ''Infinity''
      | NegInf \<Rightarrow> ''-Infinity''
      | Fin q \<Rightarrow>
          (let n = nat \<lfloor>\<bar>q\<bar>\<rfloor>;
               f = fracDigits 20 (\<bar>q\<bar> - of_nat n)
           in (if q < 0 then ''-'' else '''') @ natToDigits n
              @ (if f = [] then [] else ''.'' @ f)))"

definition parseInt10_dec :: "string \<Rightarrow> jsnum" where
  "parseInt10_dec s =
     (case signOf (dropWhile isWhiteSpace s) of
        (neg, u) \<Rightarrow>
          if takeWhile isDigit u = [] then NaN
          else Fin (if neg then - of_nat (digitsToNat (takeWhile isDigit u))
                    else of_nat (digitsToNat (takeWhile isDigit u))))"

definition decimalBuiltins :: builtins where
  "decimalBuiltins =
     \<lparr>parseFloat = parseFloat_dec, parseInt10 = parseInt10_dec, toFixed3 = toFixed3_dec,
      numToString = numToString_dec\<rparr>"


section \<open>Properties of the lines of a file\<close>

definition fileLines :: "store \<Rightarrow> FileObject \<Rightarrow> Line list" where
  "fileLines st fo = arrays st (lines fo)"

definition position :: "CommandProcessor \<Rightarrow> coord" where
  "position cp = \<lparr>cx = cpx cp, cy = cpy cp, cz = cpz cp\<rparr>"

text \<open>Every line starts where the one before it ends, the first one at \<open>c\<close>.\<close>

fun chainFrom :: "coord \<Rightarrow> Line list \<Rightarrow> bool" where
  "chainFrom c [] = True"
| "chainFrom c (l # ls) = (startCoord l = c \<and> chainFrom (endCoord l) ls)"

text \<open>
  A token of the text gives a value to the axis \<open>a\<close>: it starts with the letter, in either
  case, and the rest of it parses to a number.
\<close>

definition parsedAxis :: "builtins \<Rightarrow> char \<Rightarrow> string \<Rightarrow> bool" where
  "parsedAxis b a r \<longleftrightarrow>
     (\<exists>t \<in> set (split_ws (trim r)).
        t \<noteq> [] \<and> toUpperCase (hd t) = a \<and> parseFloat b (tl t) \<noteq> NaN)"

definition axesRetained :: "builtins \<Rightarrow> Line \<Rightarrow> bool" where
  "axesRetained b l \<longleftrightarrow>
     (\<not> parsedAxis b CHR ''X'' (raw l) \<longrightarrow> cx (endCoord l) = cx (startCoord l)) \<and>
     (\<not> parsedAxis b CHR ''Y'' (raw l) \<longrightarrow> cy (endCoord l) = cy (startCoord l)) \<and>
     (\<not> parsedAxis b CHR ''Z'' (raw l) \<longrightarrow> cz (endCoord l) = cz (startCoord l))"

text \<open>A line as the loading makes it, before the tracker runs (but for the flag of the first motion).\<close>

definition freshLine :: "Line \<Rightarrow> bool" where
  "freshLine l \<longleftrightarrow> l\<lparr>isFirst := False\<rparr> = newLine (raw l)"

text \<open>The two rules of the fast-move policy, on the text and the coordinates of a line.\<close>

definition rule1 :: "Line \<Rightarrow> bool" where
  "rule1 l \<longleftrightarrow>
     (hasLetter CHR ''X'' (raw l) \<or> hasLetter CHR ''Y'' (raw l))
     \<and> num_le (Fin 0) (cz (startCoord l)) \<and> num_le (Fin 0) (cz (endCoord l))"

definition rule2 :: "Line \<Rightarrow> bool" where
  "rule2 l \<longleftrightarrow>
     \<not> hasLetter CHR ''X'' (raw l) \<and> \<not> hasLetter CHR ''Y'' (raw l) \<and> hasLetter CHR ''Z'' (raw l)
     \<and> num_lt (cz (startCoord l)) (cz (endCoord l)) \<and> num_le (Fin 0) (cz (endCoord l))"

definition fastMoveRules :: "Line \<Rightarrow> bool" where
  "fastMoveRules l \<longleftrightarrow>
     (if rule1 l then isFastMove l \<and> fastMoveReason l \<noteq> []
      else if rule2 l then isFastMove l \<and> fastMoveReason l = []
      else \<not> isFastMove l)"

text \<open>A line of text that is a full-line comment whose text starts with Drill, in any case.\<close>

definition drillComment :: "string \<Rightarrow> bool" where
  "drillComment r \<longleftrightarrow>
     (case commentMatch r of None \<Rightarrow> False | Some body \<Rightarrow> startsWithCI ''DRILL'' body)"

text \<open>A line of a file that the tracker and the classifier have not touched.\<close>

definition untracked :: "Line \<Rightarrow> bool" where
  "untracked l \<longleftrightarrow>
     startCoord l = origin \<and> endCoord l = origin \<and> \<not> isFastMove l \<and> ''FAST'' \<notin> set (tags l)"

text \<open>
  The retained lines of a file: neither ignorable, nor a comment, nor blank. After them,
  the insertion of the reset lines as a function of the retained lines: one reset line in
  front of each line that is not fast and comes right after a fast one, and nothing else
  added.
\<close>

definition retained :: "Line \<Rightarrow> bool" where
  "retained l \<longleftrightarrow> \<not> ignored l \<and> \<not> isComment l \<and> length (trim (raw l)) \<noteq> 0"


text \<open>
  Two other forms of the same insertion, for the proof: by recursion with the
  classification of the line before, and slot by slot.
\<close>

fun afterPrev :: "bool \<Rightarrow> Line list \<Rightarrow> Line list" where
  "afterPrev prev [] = []"
| "afterPrev prev (l # ls) =
     (if prev \<and> \<not> isFastMove l then [resetLine l, l] else [l]) @ afterPrev (isFastMove l) ls"


section \<open>Example inputs\<close>

text \<open>One operation of two lines: a fast move, then a plunge below the height 0.\<close>

definition plungeDir :: "string \<Rightarrow> string" where
  "plungeDir p = ''G1 X1\<newline>G1 Z-1''"

definition plungeLoad :: "FileObject list \<times> store" where
  "plungeLoad = loadFiles decimalBuiltins plungeDir [] [''op1.nc''] emptyStore"

definition plungeTagged :: "FileObject list \<times> store" where
  "plungeTagged = addTagsToLines (fst plungeLoad) (snd plungeLoad)"

text \<open>The four lines of the example of the classification, as one file.\<close>

definition fourLinesDir :: "string \<Rightarrow> string" where
  "fourLinesDir p = ''G0 Z5\<newline>G1 X10 Y10\<newline>G1 Z-2\<newline>G1 Z5''"

definition fourLinesLoad :: "FileObject list \<times> store" where
  "fourLinesLoad = loadFiles decimalBuiltins fourLinesDir [] [''four.nc''] emptyStore"

text \<open>A drilling operation.\<close>

definition drillDir :: "string \<Rightarrow> string" where
  "drillDir p = ''(Drill holes)\<newline>G1 X1 Z-3''"

definition drillLoad :: "FileObject list \<times> store" where
  "drillLoad = loadFiles decimalBuiltins drillDir [] [''op3.nc''] emptyStore"

text \<open>
  Two operations of one setup and tool, each a comment line and one line of content,
  enumerated with the second operation first; their group, and its tagging.
\<close>

definition twoOpsDir :: "string \<Rightarrow> string" where
  "twoOpsDir p = (if p = ''op1.nc'' then ''(A)\<newline>G1 X1'' else ''(B)\<newline>G1 X2'')"

definition twoOpsLoad :: "FileObject list \<times> store" where
  "twoOpsLoad = loadFiles decimalBuiltins twoOpsDir [] [''op2.nc'', ''op1.nc''] emptyStore"

definition twoOpsGroup :: "FileObject list" where
  "twoOpsGroup = snd (hd (groupBySetupAndTool (sortByOperation (fst twoOpsLoad))))"

definition twoOpsTagged :: "FileObject list \<times> store" where
  "twoOpsTagged = addTagsToLines twoOpsGroup (snd twoOpsLoad)"

definition noParams :: params where
  "noParams = \<lparr>fr = None, filterTags = [], filtered = False\<rparr>"

definition fastFilter :: params where
  "fastFilter = \<lparr>fr = None, filterTags = [''FAST''], filtered = True\<rparr>"


section \<open>Properties of the tool dictionary\<close>

text \<open>
  The key and the entry that the first definition line of a file gives, and a directory with
  a definition file and an operation.
\<close>

definition toolKeyOf :: "(string \<Rightarrow> string) \<Rightarrow> string \<Rightarrow> string option" where
  "toolKeyOf readFile p =
     (case firstToolDef (split_lines (readFile p)) of
        None \<Rightarrow> None
      | Some (m1, m2) \<Rightarrow> Some (''T'' @ m1))"

definition toolEntryOf :: "builtins \<Rightarrow> (string \<Rightarrow> string) \<Rightarrow> string \<Rightarrow> toolEntry" where
  "toolEntryOf b readFile p =
     \<lparr>diameter = (case firstToolDef (split_lines (readFile p)) of
                    None \<Rightarrow> NaN
                  | Some (m1, m2) \<Rightarrow> parseFloat b m2),
      definitionFilename = p\<rparr>"

definition toolsDir :: "string \<Rightarrow> string" where
  "toolsDir p = (if p = ''tools.nc'' then ''(T3 D=6.00 CR=0 - flat end mill)'' else ''G1 X1'')"


section \<open>Properties of the feed-rate substitution\<close>

text \<open>
  The text of an override in plain decimal notation: digits, and then nothing or a point
  and digits. After a match: the text goes on with a fraction and a word boundary.
\<close>

definition plainDecimal :: "string \<Rightarrow> bool" where
  "plainDecimal t \<longleftrightarrow>
     takeWhile isDigit t \<noteq> []
     \<and> (dropWhile isDigit t = []
        \<or> (take 1 (dropWhile isDigit t) = ''.'' \<and> drop 1 (dropWhile isDigit t) \<noteq> []
           \<and> list_all isDigit (drop 1 (dropWhile isDigit t))))"

definition hasFraction :: "string \<Rightarrow> bool" where
  "hasFraction t \<longleftrightarrow> CHR ''.'' \<in> set t"

definition fracAhead :: "string \<Rightarrow> bool" where
  "fracAhead xs \<longleftrightarrow>
     take 1 xs = ''.'' \<and> takeWhile isDigit (drop 1 xs) \<noteq> []
     \<and> boundaryAfterWord (dropWhile isDigit (drop 1 xs))"

text \<open>
  The scan of \<^const>\<open>replaceFeed\<close>, collecting what follows each match in the line.
\<close>

function matchRests :: "bool \<Rightarrow> string \<Rightarrow> string list" where
  "matchRests pw [] = []"
| "matchRests pw (c # cs) =
     (if \<not> pw \<and> toUpperCase c = CHR ''F''
      then (case feedMatch cs of
              Some n \<Rightarrow> drop n cs # matchRests True (drop n cs)
            | None \<Rightarrow> matchRests (isWordChar c) cs)
      else matchRests (isWordChar c) cs)"
  by pat_completeness auto
termination
  by (relation "measure (\<lambda>(pw, s). length s)") auto

text \<open>
  No letter F of the text starts a word, when \<open>pw\<close> tells that a word character comes
  before the text. A closed text also ends in a word character; every text that the
  language gives for a number is closed (digits, a sign, a point, an exponent, NaN,
  Infinity).
\<close>

fun quiet :: "bool \<Rightarrow> string \<Rightarrow> bool" where
  "quiet pw [] = True"
| "quiet pw (c # cs) = ((pw \<or> toUpperCase c \<noteq> CHR ''F'') \<and> quiet (isWordChar c) cs)"

definition closedText :: "string \<Rightarrow> bool" where
  "closedText t \<longleftrightarrow> t \<noteq> [] \<and> isWordChar (last t) \<and> quiet True t"

text \<open>
  The condition on the text \<open>t\<close> of the override and the line: the line has no match; or
  the text does not start with a number that a match would take; or the text is a plain
  decimal, and it has a fraction or no match of the line is followed by a fraction.
\<close>

definition idemCondition :: "string \<Rightarrow> string \<Rightarrow> bool" where
  "idemCondition t line \<longleftrightarrow>
     matchRests False line = []
     \<or> (feedMatch t = None \<and> closedText t)
     \<or> (plainDecimal t
        \<and> (hasFraction t \<or> list_all (\<lambda>rest. \<not> fracAhead rest) (matchRests False line)))"

definition feed500 :: params where
  "feed500 = \<lparr>fr = Some (Fin 500), filterTags = [], filtered = False\<rparr>"

text \<open>
  The decimal instance, but with the text that the language gives for the number
  \<open>1.5e-7\<close>, which it prints in exponent notation.
\<close>

definition numToString_tiny :: "jsnum \<Rightarrow> string" where
  "numToString_tiny v = (if v = Fin (3 / 20000000) then ''1.5e-7'' else numToString_dec v)"

definition tinyBuiltins :: builtins where
  "tinyBuiltins =
     \<lparr>parseFloat = parseFloat_dec, parseInt10 = parseInt10_dec, toFixed3 = toFixed3_dec,
      numToString = numToString_tiny\<rparr>"

definition feedTiny :: params where
  "feedTiny = \<lparr>fr = Some (Fin (3 / 20000000)), filterTags = [], filtered = False\<rparr>"

definition feedMinus3 :: params where
  "feedMinus3 = \<lparr>fr = Some (Fin (- 3)), filterTags = [], filtered = False\<rparr>"

section \<open>Properties of the merged files\<close>

text \<open>
  The comparator of \<^const>\<open>sortByOperation\<close> orders the files as this key does: the
  infinities below and above the finite numbers.
\<close>

definition rank :: "jsnum \<Rightarrow> nat \<times> rat" where
  "rank v = (case v of NegInf \<Rightarrow> (0, 0) | Fin q \<Rightarrow> (1, q) | PosInf \<Rightarrow> (2, 0) | NaN \<Rightarrow> (3, 0))"

definition operationKey :: "FileObject \<Rightarrow> nat \<times> rat" where
  "operationKey f = rank (orZero (operation f))"

text \<open>The lines that \<^const>\<open>addTagsToLines\<close> pushes for a member.\<close>

definition taggedLines :: "store \<Rightarrow> FileObject \<Rightarrow> Line list" where
  "taggedLines st h = tagLines h (arrays st (lines h)) False []"

text \<open>The strings that the block of the member \<open>f\<close> prints for the lines pushed for \<open>h\<close>.\<close>

definition memberText :: "builtins \<Rightarrow> params \<Rightarrow> store \<Rightarrow> FileObject \<Rightarrow> FileObject \<Rightarrow> string list" where
  "memberText b ps st f h = concat (map (contentLine b ps f) (taggedLines st h))"

text \<open>The statistics of a member in its block, with the counter before the member.\<close>

definition statsBlock :: "builtins \<Rightarrow> nat \<Rightarrow> FileObject \<Rightarrow> string list" where
  "statsBlock b fileCnt f =
     (case commandProcessor f of
        None \<Rightarrow> []
      | Some cp \<Rightarrow>
          [''; FILE '' @ numToString b (Fin (of_nat (Suc fileCnt))) @ '' STATS'',
           statsLine ''MIN'' (fixed8 b (cx (cpmin cp))) (fixed8 b (cy (cpmin cp)))
             (fixed8 b (cz (cpmin cp))),
           statsLine ''MAX'' (fixed8 b (cx (cpmax cp))) (fixed8 b (cy (cpmax cp)))
             (fixed8 b (cz (cpmax cp))),
           ''''])"

text \<open>The blocks of the members, one list for each, with the counter threaded.\<close>

fun memberBlocks :: "builtins \<Rightarrow> params \<Rightarrow> store \<Rightarrow> nat \<Rightarrow> FileObject list \<Rightarrow> string list list" where
  "memberBlocks b ps st fileCnt [] = []"
| "memberBlocks b ps st fileCnt (fItem # fs) =
     (case memberBlock b ps st fileCnt fItem of
        (blk, cnt) \<Rightarrow> blk # memberBlocks b ps st cnt fs)"

text \<open>The store agrees with an earlier one on the arrays of the earlier one.\<close>

definition extends :: "store \<Rightarrow> store \<Rightarrow> bool" where
  "extends st st0 \<longleftrightarrow>
     nextRef st \<le> nextRef st0 \<and> (\<forall>r < nextRef st. arrays st0 r = arrays st r)"

section \<open>The position tracker\<close>

lemma processLine_start: "processLine b cp l = (cp1, s, e) \<Longrightarrow> s = position cp \<and> e = position cp1"
  by (auto simp: processLine_def position_def Let_def)

lemma classifyLine_coords [simp]:
  "startCoord (classifyLine b l) = startCoord l"
  "endCoord (classifyLine b l) = endCoord l"
  "raw (classifyLine b l) = raw l"
  by (simp_all add: classifyLine_def Let_def)

lemma trackLines_chainFrom:
  "trackLines b cp ls = (cp1, ls1) \<Longrightarrow> chainFrom (position cp) ls1"
proof (induction ls arbitrary: cp cp1 ls1)
  case Nil
  then show ?case by auto
next
  case (Cons l ls)
  obtain cpa s e where p: "processLine b cp l = (cpa, s, e)" by (metis prod_cases3)
  obtain cpb lsb where t: "trackLines b cpa ls = (cpb, lsb)" by (metis surj_pair)
  from Cons.prems p t have eq: "ls1 = classifyLine b (l\<lparr>startCoord := s, endCoord := e\<rparr>) # lsb"
    by simp
  from processLine_start[OF p] Cons.IH[OF t] show ?case
    by (simp add: eq)
qed

lemma chainFrom_nth:
  "chainFrom c ls \<Longrightarrow> Suc i < length ls \<Longrightarrow> startCoord (ls ! Suc i) = endCoord (ls ! i)"
proof (induction ls arbitrary: c i)
  case Nil
  then show ?case by simp
next
  case (Cons l ls)
  show ?case
  proof (cases i)
    case 0
    with Cons.prems show ?thesis by (cases ls) auto
  next
    case (Suc j)
    with Cons.prems Cons.IH[of "endCoord l" j] show ?thesis by simp
  qed
qed

lemma axisToken_keep:
  "cx (axisToken b new t) = (if t \<noteq> [] \<and> toUpperCase (hd t) = CHR ''X'' \<and> parseFloat b (tl t) \<noteq> NaN then parseFloat b (tl t) else cx new)"
  "cy (axisToken b new t) = (if t \<noteq> [] \<and> toUpperCase (hd t) = CHR ''Y'' \<and> parseFloat b (tl t) \<noteq> NaN then parseFloat b (tl t) else cy new)"
  "cz (axisToken b new t) = (if t \<noteq> [] \<and> toUpperCase (hd t) = CHR ''Z'' \<and> parseFloat b (tl t) \<noteq> NaN then parseFloat b (tl t) else cz new)"
  by (auto simp: axisToken_def Let_def split: list.splits)

lemma foldl_axisToken_keep_x:
  "\<forall>t \<in> set ts. \<not> (t \<noteq> [] \<and> toUpperCase (hd t) = CHR ''X'' \<and> parseFloat b (tl t) \<noteq> NaN) \<Longrightarrow> cx (foldl (axisToken b) new ts) = cx new"
  by (induction ts arbitrary: new) (auto simp: axisToken_keep)

lemma foldl_axisToken_keep_y:
  "\<forall>t \<in> set ts. \<not> (t \<noteq> [] \<and> toUpperCase (hd t) = CHR ''Y'' \<and> parseFloat b (tl t) \<noteq> NaN) \<Longrightarrow> cy (foldl (axisToken b) new ts) = cy new"
  by (induction ts arbitrary: new) (auto simp: axisToken_keep)

lemma foldl_axisToken_keep_z:
  "\<forall>t \<in> set ts. \<not> (t \<noteq> [] \<and> toUpperCase (hd t) = CHR ''Z'' \<and> parseFloat b (tl t) \<noteq> NaN) \<Longrightarrow> cz (foldl (axisToken b) new ts) = cz new"
  by (induction ts arbitrary: new) (auto simp: axisToken_keep)

lemma processLine_retained:
  "processLine b cp l = (cp1, s, e) \<Longrightarrow> axesRetained b (l\<lparr>startCoord := s, endCoord := e\<rparr>)"
  unfolding axesRetained_def parsedAxis_def
  by (auto simp: processLine_def Let_def foldl_axisToken_keep_x foldl_axisToken_keep_y foldl_axisToken_keep_z)


lemma newFileObject_sel [simp]:
  "lines (newFileObject b p r ls) = r"
  "path (newFileObject b p r ls) = p"
  "isDrilling (newFileObject b p r ls) = extractIsDrilling ls"
  "allowFastMoves (newFileObject b p r ls) = (\<not> extractIsDrilling ls)"
  "commandProcessor (newFileObject b p r ls) = None"
  by (simp_all add: newFileObject_def)

lemma loadFile_ref:
  "loadFile b p c st = (fo, st1) \<Longrightarrow>
     lines fo = nextRef st \<and> nextRef st1 = Suc (nextRef st)
     \<and> (\<forall>r. r \<noteq> nextRef st \<longrightarrow> arrays st1 r = arrays st r)"
  by (auto simp: loadFile_def newArray_def Let_def split: prod.splits if_splits)

lemma loadFiles_frame:
  "loadFiles b rf d ps st = (fos, st1) \<Longrightarrow>
     nextRef st \<le> nextRef st1 \<and> (\<forall>r < nextRef st. arrays st1 r = arrays st r)"
proof (induction ps arbitrary: st fos st1)
  case Nil
  then show ?case by simp
next
  case (Cons p ps)
  show ?case
  proof (cases "p \<in> set d")
    case True
    with Cons show ?thesis by simp
  next
    case False
    obtain fo sa where a: "loadFile b p (rf p) st = (fo, sa)" by (metis surj_pair)
    obtain fs sb where c: "loadFiles b rf d ps sa = (fs, sb)" by (metis surj_pair)
    from Cons.prems False a c have "st1 = sb" by simp
    with loadFile_ref[OF a] Cons.IH[OF c] show ?thesis by auto
  qed
qed

lemma loadFiles_member:
  "loadFiles b rf d ps st = (fos, st1) \<Longrightarrow> fo \<in> set fos \<Longrightarrow>
     \<exists>p s0 s1. p \<in> set ps \<and> p \<notin> set d \<and> loadFile b p (rf p) s0 = (fo, s1)
       \<and> fileLines st1 fo = fileLines s1 fo"
proof (induction ps arbitrary: st fos st1)
  case Nil
  then show ?case by simp
next
  case (Cons p ps)
  show ?case
  proof (cases "p \<in> set d")
    case True
    with Cons.prems have "loadFiles b rf d ps st = (fos, st1)" by simp
    from Cons.IH[OF this Cons.prems(2)] show ?thesis by auto
  next
    case False
    obtain f sa where a: "loadFile b p (rf p) st = (f, sa)" by (metis surj_pair)
    obtain fs sb where c: "loadFiles b rf d ps sa = (fs, sb)" by (metis surj_pair)
    from Cons.prems(1) False a c have eq: "fos = f # fs" "st1 = sb" by simp_all
    show ?thesis
    proof (cases "fo = f")
      case True
      from loadFile_ref[OF a] loadFiles_frame[OF c]
      have "arrays sb (lines f) = arrays sa (lines f)" by simp
      with True eq a False show ?thesis
        unfolding fileLines_def by (intro exI[of _ p] exI[of _ st] exI[of _ sa]) simp
    next
      case False
      with Cons.prems(2) eq have "fo \<in> set fs" by simp
      from Cons.IH[OF c this] eq show ?thesis by auto
    qed
  qed
qed

lemma loadFile_tracked:
  "loadFile b p c st = (fo, st1) \<Longrightarrow> allowFastMoves fo \<Longrightarrow>
     \<exists>cp. trackLines b newCommandProcessor (flagFirst (map newLine (split_lines c)))
            = (cp, fileLines st1 fo) \<and> commandProcessor fo = Some cp"
  by (auto simp: loadFile_def newArray_def fileLines_def Let_def split: prod.splits if_splits)

lemma loadFile_untracked:
  "loadFile b p c st = (fo, st1) \<Longrightarrow> \<not> allowFastMoves fo \<Longrightarrow>
     fileLines st1 fo = flagFirst (map newLine (split_lines c)) \<and> commandProcessor fo = None"
  by (auto simp: loadFile_def newArray_def fileLines_def Let_def split: prod.splits if_splits)

lemma trackLines_retained:
  "trackLines b cp ls = (cp1, ls1) \<Longrightarrow> \<forall>l \<in> set ls1. axesRetained b l"
proof (induction ls arbitrary: cp cp1 ls1)
  case Nil
  then show ?case by auto
next
  case (Cons l ls)
  obtain cpa s e where p: "processLine b cp l = (cpa, s, e)" by (metis prod_cases3)
  obtain cpb lsb where t: "trackLines b cpa ls = (cpb, lsb)" by (metis surj_pair)
  from Cons.prems p t have eq: "ls1 = classifyLine b (l\<lparr>startCoord := s, endCoord := e\<rparr>) # lsb"
    by simp
  from processLine_retained[OF p] have "axesRetained b (classifyLine b (l\<lparr>startCoord := s, endCoord := e\<rparr>))"
    by (simp add: axesRetained_def)
  with Cons.IH[OF t] show ?case
    by (simp add: eq)
qed


text \<open>
  The lines of a loaded file are those of one run of the body of the loop: the arrays of
  the files made before and after it lie at other references.
\<close>

lemma flagFirst_fresh:
  "\<forall>l \<in> set ls. freshLine l \<Longrightarrow> \<forall>l \<in> set (flagFirst ls). freshLine l"
  by (induction ls) (auto simp: freshLine_def)

lemma lineObjs_fresh: "\<forall>l \<in> set (flagFirst (map newLine rs)). freshLine l"
  by (rule flagFirst_fresh) (simp add: freshLine_def newLine_def)

lemma flagFirst_raw [simp]: "map raw (flagFirst ls) = map raw ls"
  by (induction ls) auto

lemma loadFile_kind:
  "loadFile b p c st = (fo, st1) \<Longrightarrow>
     path fo = p \<and> allowFastMoves fo = (\<not> isDrilling fo)
     \<and> isDrilling fo = extractIsDrilling (flagFirst (map newLine (split_lines c)))"
  by (auto simp: loadFile_def newArray_def Let_def split: prod.splits if_splits)

text \<open>
  C1. In every file that the position tracker has processed (a file that allows fast
  moves, that is a file that is no drilling file), each line starts at the coordinates
  where the line before it ends; and on every line an axis keeps its value unless a token
  of the line starts with the letter of the axis and has a rest that parses to a number.
\<close>

theorem position_chain:
  assumes "loadFiles b readFile defFiles paths st = (fos, st1)"
    and "fo \<in> set fos" and "allowFastMoves fo"
  shows "(\<forall>i. Suc i < length (fileLines st1 fo) \<longrightarrow>
            startCoord (fileLines st1 fo ! Suc i) = endCoord (fileLines st1 fo ! i))
         \<and> (\<forall>l \<in> set (fileLines st1 fo). axesRetained b l)"
proof -
  from loadFiles_member[OF assms(1,2)] obtain p s0 s1 where
    lf: "loadFile b p (readFile p) s0 = (fo, s1)" and eq: "fileLines st1 fo = fileLines s1 fo"
    by blast
  from loadFile_tracked[OF lf assms(3)] obtain cp where
    tr: "trackLines b newCommandProcessor (flagFirst (map newLine (split_lines (readFile p))))
           = (cp, fileLines s1 fo)" by blast
  from trackLines_chainFrom[OF tr] trackLines_retained[OF tr] show ?thesis
    unfolding eq by (auto intro: chainFrom_nth)
qed

theorem position_chain_witness:
  "hd (fst plungeLoad) \<in> set (fst plungeLoad) \<and> allowFastMoves (hd (fst plungeLoad))
   \<and> Suc 0 < length (fileLines (snd plungeLoad) (hd (fst plungeLoad)))
   \<and> startCoord (fileLines (snd plungeLoad) (hd (fst plungeLoad)) ! Suc 0)
       = endCoord (fileLines (snd plungeLoad) (hd (fst plungeLoad)) ! 0)
   \<and> axesRetained decimalBuiltins (fileLines (snd plungeLoad) (hd (fst plungeLoad)) ! Suc 0)"
proof -
  have run: "loadFiles decimalBuiltins plungeDir [] [''op1.nc''] emptyStore
             = (fst plungeLoad, snd plungeLoad)"
    by (simp add: plungeLoad_def)
  have m: "hd (fst plungeLoad) \<in> set (fst plungeLoad)" by code_simp
  have a: "allowFastMoves (hd (fst plungeLoad))" by code_simp
  have n: "Suc 0 < length (fileLines (snd plungeLoad) (hd (fst plungeLoad)))" by code_simp
  from n have e: "fileLines (snd plungeLoad) (hd (fst plungeLoad)) ! Suc 0
                   \<in> set (fileLines (snd plungeLoad) (hd (fst plungeLoad)))"
    by (rule nth_mem)
  from position_chain[OF run m a] m a n e show ?thesis by blast
qed

section \<open>The fast-move policy\<close>

lemma classifyLine_rules:
  assumes "freshLine l"
  shows "fastMoveRules (classifyLine b (l\<lparr>startCoord := s, endCoord := e\<rparr>))"
proof -
  from assms have f: "hasX l = hasLetter CHR ''X'' (raw l)" "hasY l = hasLetter CHR ''Y'' (raw l)"
    "hasZ l = hasLetter CHR ''Z'' (raw l)" "fastMoveReason l = []"
    using arg_cong[OF assms[unfolded freshLine_def], of hasX]
      arg_cong[OF assms[unfolded freshLine_def], of hasY]
      arg_cong[OF assms[unfolded freshLine_def], of hasZ]
      arg_cong[OF assms[unfolded freshLine_def], of fastMoveReason]
    by (simp_all add: newLine_def)
  show ?thesis
    by (auto simp: fastMoveRules_def rule1_def rule2_def classifyLine_def Let_def f)
qed

lemma trackLines_rules:
  "trackLines b cp ls = (cp1, ls1) \<Longrightarrow> \<forall>l \<in> set ls. freshLine l \<Longrightarrow>
     \<forall>l \<in> set ls1. fastMoveRules l"
proof (induction ls arbitrary: cp cp1 ls1)
  case Nil
  then show ?case by auto
next
  case (Cons l ls)
  obtain cpa s e where p: "processLine b cp l = (cpa, s, e)" by (metis prod_cases3)
  obtain cpb lsb where t: "trackLines b cpa ls = (cpb, lsb)" by (metis surj_pair)
  from Cons.prems(1) p t have eq: "ls1 = classifyLine b (l\<lparr>startCoord := s, endCoord := e\<rparr>) # lsb"
    by simp
  from Cons.prems(2) have "freshLine l" "\<forall>l \<in> set ls. freshLine l" by simp_all
  with Cons.IH[OF t] classifyLine_rules[where l=l and b=b and s=s and e=e] show ?case
    by (simp add: eq)
qed

text \<open>
  C2. Every line of a file that is no drilling file is classified by the two rules: when
  the text has an X or a Y and the line starts and ends at a height of at least 0, the line
  is a fast move and a reason is recorded; else, when the text has a Z and neither X nor Y,
  and the line ends higher than it starts and at a height of at least 0, the line is a fast
  move and no reason is recorded; else the line is no fast move. The four lines of the
  example, tracked from the height 5, are classified as not fast, fast by the first rule,
  not fast, and fast by the second rule.
\<close>

theorem fast_move_classification:
  assumes "loadFiles b readFile defFiles paths st = (fos, st1)"
    and "fo \<in> set fos" and "\<not> isDrilling fo" and "l \<in> set (fileLines st1 fo)"
  shows "fastMoveRules l
         \<and> map (\<lambda>l. (raw l, isFastMove l, rule1 l, rule2 l))
             (fileLines (snd fourLinesLoad) (hd (fst fourLinesLoad)))
           = [(''G0 Z5'', False, False, False), (''G1 X10 Y10'', True, True, False),
              (''G1 Z-2'', False, False, False), (''G1 Z5'', True, False, True)]"
proof -
  from loadFiles_member[OF assms(1,2)] obtain p s0 s1 where
    lf: "loadFile b p (readFile p) s0 = (fo, s1)" and eq: "fileLines st1 fo = fileLines s1 fo"
    by blast
  from loadFile_kind[OF lf] assms(3) have "allowFastMoves fo" by simp
  from loadFile_tracked[OF lf this] obtain cp where
    tr: "trackLines b newCommandProcessor (flagFirst (map newLine (split_lines (readFile p))))
           = (cp, fileLines s1 fo)" by blast
  from trackLines_rules[OF tr lineObjs_fresh] assms(4) have "fastMoveRules l"
    unfolding eq by blast
  moreover have "map (\<lambda>l. (raw l, isFastMove l, rule1 l, rule2 l))
             (fileLines (snd fourLinesLoad) (hd (fst fourLinesLoad)))
           = [(''G0 Z5'', False, False, False), (''G1 X10 Y10'', True, True, False),
              (''G1 Z-2'', False, False, False), (''G1 Z5'', True, False, True)]"
    by code_simp
  ultimately show ?thesis by blast
qed

theorem fast_move_classification_witness:
  "hd (fst fourLinesLoad) \<in> set (fst fourLinesLoad) \<and> \<not> isDrilling (hd (fst fourLinesLoad))
   \<and> fileLines (snd fourLinesLoad) (hd (fst fourLinesLoad)) ! 3
       \<in> set (fileLines (snd fourLinesLoad) (hd (fst fourLinesLoad)))
   \<and> fastMoveRules (fileLines (snd fourLinesLoad) (hd (fst fourLinesLoad)) ! 3)"
proof -
  have run: "loadFiles decimalBuiltins fourLinesDir [] [''four.nc''] emptyStore
             = (fst fourLinesLoad, snd fourLinesLoad)"
    by (simp add: fourLinesLoad_def)
  have m: "hd (fst fourLinesLoad) \<in> set (fst fourLinesLoad)" by code_simp
  have d: "\<not> isDrilling (hd (fst fourLinesLoad))" by code_simp
  have n: "fileLines (snd fourLinesLoad) (hd (fst fourLinesLoad)) ! 3
             \<in> set (fileLines (snd fourLinesLoad) (hd (fst fourLinesLoad)))" by code_simp
  from fast_move_classification[OF run m d n] m d n show ?thesis by blast
qed


section \<open>Drilling files\<close>

lemma fresh_untracked: "freshLine l \<Longrightarrow> untracked l"
proof -
  assume a: "freshLine l"
  have "startCoord l = origin" "endCoord l = origin" "isFastMove l = False" "tags l = []"
    using arg_cong[OF a[unfolded freshLine_def], of startCoord]
      arg_cong[OF a[unfolded freshLine_def], of endCoord]
      arg_cong[OF a[unfolded freshLine_def], of isFastMove]
      arg_cong[OF a[unfolded freshLine_def], of tags]
    by (simp_all add: newLine_def)
  then show ?thesis by (simp add: untracked_def)
qed

lemma setTag_fields [simp]:
  "startCoord (setTag t l) = startCoord l"
  "endCoord (setTag t l) = endCoord l"
  "isFastMove (setTag t l) = isFastMove l"
  "raw (setTag t l) = raw l"
  "ignored (setTag t l) = ignored l"
  "isComment (setTag t l) = isComment l"
  by (simp_all add: setTag_def)

lemma parseTags_fields [simp]:
  "startCoord (parseTags l) = startCoord l"
  "endCoord (parseTags l) = endCoord l"
  "isFastMove (parseTags l) = isFastMove l"
  "raw (parseTags l) = raw l"
  "ignored (parseTags l) = ignored l"
  "isComment (parseTags l) = isComment l"
  by (simp_all add: parseTags_def Let_def)

lemma tags_setTag: "set (tags (setTag t l)) = insert t (set (tags l))"
  by (auto simp: setTag_def)

lemma parseTags_FAST:
  "''FAST'' \<in> set (tags (parseTags l)) \<longleftrightarrow> isFastMove l \<or> ''FAST'' \<in> set (tags l)"
  by (auto simp: parseTags_def Let_def tags_setTag)

lemma parseTags_untracked: "untracked l \<Longrightarrow> untracked (parseTags l)"
  unfolding untracked_def
  by (simp add: parseTags_FAST)

lemma tagLines_drilling:
  "\<not> allowFastMoves f \<Longrightarrow>
     tagLines f ls lwf out = out @ map parseTags (filter retained ls)"
  by (induction ls arbitrary: out) (auto simp: retained_def Let_def)

lemma raw_newLine [simp]: "raw (newLine r) = r"
  by (simp add: newLine_def)

lemma extractIsDrilling_drillComment:
  "extractIsDrilling ls \<longleftrightarrow> (\<exists>l \<in> set ls. drillComment (raw l))"
  by (induction ls) (auto simp: drillComment_def split: option.splits)

lemma loadFile_isDrilling:
  assumes "loadFile b p c st = (fo, st1)"
  shows "isDrilling fo \<longleftrightarrow> (\<exists>r \<in> set (split_lines c). drillComment r)"
proof -
  let ?ls = "flagFirst (map newLine (split_lines c))"
  have "map raw ?ls = split_lines c" by (simp add: comp_def)
  then have i: "raw ` set ?ls = set (split_lines c)" by (metis set_map)
  have "(\<exists>l \<in> set ?ls. drillComment (raw l)) \<longleftrightarrow> (\<exists>r \<in> raw ` set ?ls. drillComment r)"
    by blast
  then have "(\<exists>l \<in> set ?ls. drillComment (raw l)) \<longleftrightarrow> (\<exists>r \<in> set (split_lines c). drillComment r)"
    unfolding i .
  with loadFile_kind[OF assms] show ?thesis
    by (simp add: extractIsDrilling_drillComment)
qed

text \<open>
  C8. A file with a full-line comment whose text starts with Drill (in any case of the
  letters) is a drilling file, and only such a file is one. The tracker and the classifier
  do not run on it: the file has no CommandProcessor, every line of it has the coordinates
  0 at its start and at its end and is no fast move, and the lines that the tagging pushes
  for it are its retained lines with their tags, none of them the tag FAST.
\<close>

theorem drilling_untracked:
  assumes "loadFiles b readFile defFiles paths st = (fos, st1)"
    and "fo \<in> set fos"
    and "\<exists>r \<in> set (split_lines (readFile (path fo))). drillComment r"
  shows "isDrilling fo
         \<and> commandProcessor fo = None
         \<and> (\<forall>l \<in> set (fileLines st1 fo). untracked l)
         \<and> tagLines fo (fileLines st1 fo) False out
             = out @ map parseTags (filter retained (fileLines st1 fo))
         \<and> (\<forall>l \<in> set (map parseTags (filter retained (fileLines st1 fo))). untracked l)"
proof -
  from loadFiles_member[OF assms(1,2)] obtain p s0 s1 where
    lf: "loadFile b p (readFile p) s0 = (fo, s1)" and eq: "fileLines st1 fo = fileLines s1 fo"
    by blast
  let ?ls = "flagFirst (map newLine (split_lines (readFile p)))"
  from loadFile_kind[OF lf] have p: "path fo = p" by simp
  from loadFile_isDrilling[OF lf] assms(3) have d: "isDrilling fo" unfolding p by simp
  from loadFile_kind[OF lf] d have k: "\<not> allowFastMoves fo" by simp
  from loadFile_untracked[OF lf k] have u: "fileLines s1 fo = ?ls" "commandProcessor fo = None"
    by simp_all
  have c3: "\<forall>l \<in> set (fileLines st1 fo). untracked l"
    unfolding eq u(1) using lineObjs_fresh fresh_untracked by blast
  then have c5: "\<forall>l \<in> set (map parseTags (filter retained (fileLines st1 fo))). untracked l"
    by (auto intro: parseTags_untracked)
  from d u(2) c3 c5 tagLines_drilling[OF k] show ?thesis by blast
qed

theorem drilling_untracked_witness:
  "hd (fst drillLoad) \<in> set (fst drillLoad)
   \<and> ''(Drill holes)'' \<in> set (split_lines (drillDir (path (hd (fst drillLoad)))))
   \<and> drillComment ''(Drill holes)''
   \<and> isDrilling (hd (fst drillLoad))
   \<and> commandProcessor (hd (fst drillLoad)) = None
   \<and> list_all untracked (fileLines (snd drillLoad) (hd (fst drillLoad)))
   \<and> list_all untracked
        (tagLines (hd (fst drillLoad)) (fileLines (snd drillLoad) (hd (fst drillLoad))) False [])
   \<and> map raw (tagLines (hd (fst drillLoad))
                 (fileLines (snd drillLoad) (hd (fst drillLoad))) False []) = [''G1 X1 Z-3'']"
proof -
  have run: "loadFiles decimalBuiltins drillDir [] [''op3.nc''] emptyStore
             = (fst drillLoad, snd drillLoad)"
    by (simp add: drillLoad_def)
  have m: "hd (fst drillLoad) \<in> set (fst drillLoad)" by code_simp
  have c: "''(Drill holes)'' \<in> set (split_lines (drillDir (path (hd (fst drillLoad)))))"
    by code_simp
  have d: "drillComment ''(Drill holes)''" by code_simp
  from c d have e: "\<exists>r \<in> set (split_lines (drillDir (path (hd (fst drillLoad))))). drillComment r"
    by blast
  have r: "map raw (tagLines (hd (fst drillLoad))
                 (fileLines (snd drillLoad) (hd (fst drillLoad))) False []) = [''G1 X1 Z-3'']"
    by code_simp
  from drilling_untracked[OF run m e, of "[]"] m c d r show ?thesis
    by (simp add: list_all_iff)
qed


section \<open>Reset lines\<close>

lemma tagLines_afterPrev:
  "allowFastMoves f \<Longrightarrow>
     tagLines f ls lwf out = out @ afterPrev lwf (map parseTags (filter retained ls))"
  by (induction ls arbitrary: lwf out) (auto simp: retained_def Let_def)





lemma resetLine_fields:
  "raw (resetLine l) = ''G1''" "tags (resetLine l) = [''RESET-FR'']"
  "startCoord (resetLine l) = startCoord l" "endCoord (resetLine l) = endCoord l"
  by (simp_all add: resetLine_def setTag_def clone_def newLine_def)




section \<open>The shared output array of the tagging\<close>

text \<open>
  The members of a group have their arrays at references made before the tagging. After
  it, the field \<open>lines\<close> of every member refers to the one new array, which holds what all
  the members have pushed.
\<close>

lemma tagLines_append:
  "tagLines f ls lwf out = out @ tagLines f ls lwf []"
proof (cases "allowFastMoves f")
  case True
  from tagLines_afterPrev[OF True, of ls lwf out] tagLines_afterPrev[OF True, of ls lwf "[]"]
  show ?thesis by simp
next
  case False
  from tagLines_drilling[OF False, of ls lwf out] tagLines_drilling[OF False, of ls lwf "[]"]
  show ?thesis by simp
qed

lemma store_upd_upd:
  "(st\<lparr>arrays := (arrays st)(r := x)\<rparr>)\<lparr>arrays := (arrays (st\<lparr>arrays := (arrays st)(r := x)\<rparr>))(r := y)\<rparr>
     = st\<lparr>arrays := (arrays st)(r := y)\<rparr>"
  by simp

lemma addTagsLoop_alias:
  assumes "\<forall>f \<in> set grp. lines f \<noteq> out"
  shows "addTagsLoop out grp st =
           (map (\<lambda>f. f\<lparr>lines := out\<rparr>) grp,
            st\<lparr>arrays := (arrays st)
                  (out := arrays st out
                          @ concat (map (\<lambda>f. tagLines f (arrays st (lines f)) False []) grp))\<rparr>)"
  using assms
proof (induction grp arbitrary: st)
  case Nil
  then show ?case by simp
next
  case (Cons f fs)
  define outp where "outp = tagLines f (arrays st (lines f)) False (arrays st out)"
  define st1 where "st1 = st\<lparr>arrays := (arrays st)(out := outp)\<rparr>"
  from Cons.prems have ne: "\<forall>g \<in> set fs. lines g \<noteq> out" by simp
  have same: "map (\<lambda>g. tagLines g (arrays st1 (lines g)) False []) fs
              = map (\<lambda>g. tagLines g (arrays st (lines g)) False []) fs"
    using ne by (intro map_cong) (auto simp: st1_def)
  have o: "outp = arrays st out @ tagLines f (arrays st (lines f)) False []"
    unfolding outp_def by (rule tagLines_append)
  have a1: "arrays st1 out = outp" by (simp add: st1_def)
  have a2: "st1\<lparr>arrays := (arrays st1)(out := X)\<rparr> = st\<lparr>arrays := (arrays st)(out := X)\<rparr>" for X
    by (simp add: st1_def)
  have "addTagsLoop out (f # fs) st
        = (case addTagsLoop out fs st1 of (fs1, st2) \<Rightarrow> (f\<lparr>lines := out\<rparr> # fs1, st2))"
    by (simp add: Let_def outp_def st1_def)
  also have "\<dots> = (f\<lparr>lines := out\<rparr> # map (\<lambda>f. f\<lparr>lines := out\<rparr>) fs,
       st\<lparr>arrays := (arrays st)(out := outp
              @ concat (map (\<lambda>g. tagLines g (arrays st (lines g)) False []) fs))\<rparr>)"
    unfolding Cons.IH[OF ne] same a1 a2 by simp
  finally have e: "addTagsLoop out (f # fs) st
        = (f\<lparr>lines := out\<rparr> # map (\<lambda>f. f\<lparr>lines := out\<rparr>) fs,
           st\<lparr>arrays := (arrays st)(out := outp
              @ concat (map (\<lambda>g. tagLines g (arrays st (lines g)) False []) fs))\<rparr>)" .
  have c: "arrays st out @ concat (map (\<lambda>f. tagLines f (arrays st (lines f)) False []) (f # fs))
           = outp @ concat (map (\<lambda>g. tagLines g (arrays st (lines g)) False []) fs)"
    by (simp add: o)
  have m: "map (\<lambda>f. f\<lparr>lines := out\<rparr>) (f # fs) = f\<lparr>lines := out\<rparr> # map (\<lambda>f. f\<lparr>lines := out\<rparr>) fs"
    by simp
  show ?case unfolding e c m ..
qed

lemma addTagsToLines_alias:
  assumes "\<forall>f \<in> set grp. lines f < nextRef st"
  shows "addTagsToLines grp st =
           (map (\<lambda>f. f\<lparr>lines := nextRef st\<rparr>) grp,
            st\<lparr>arrays := (arrays st)
                  (nextRef st := concat (map (\<lambda>f. tagLines f (arrays st (lines f)) False []) grp)),
               nextRef := Suc (nextRef st)\<rparr>)"
proof -
  define st0 where "st0 = st\<lparr>arrays := (arrays st)(nextRef st := []), nextRef := Suc (nextRef st)\<rparr>"
  from assms have ne: "\<forall>f \<in> set grp. lines f \<noteq> nextRef st" by auto
  have same: "map (\<lambda>g. tagLines g (arrays st0 (lines g)) False []) grp
              = map (\<lambda>g. tagLines g (arrays st (lines g)) False []) grp"
    using ne by (intro map_cong) (auto simp: st0_def)
  have a1: "arrays st0 (nextRef st) = []" by (simp add: st0_def)
  have a2: "st0\<lparr>arrays := (arrays st0)(nextRef st := X)\<rparr>
            = st\<lparr>arrays := (arrays st)(nextRef st := X), nextRef := Suc (nextRef st)\<rparr>" for X
    by (simp add: st0_def)
  have "addTagsToLines grp st = addTagsLoop (nextRef st) grp st0"
    by (simp add: addTagsToLines_def newArray_def st0_def)
  also have "\<dots> = (map (\<lambda>f. f\<lparr>lines := nextRef st\<rparr>) grp,
            st0\<lparr>arrays := (arrays st0)
                  (nextRef st := arrays st0 (nextRef st)
                     @ concat (map (\<lambda>f. tagLines f (arrays st0 (lines f)) False []) grp))\<rparr>)"
    by (rule addTagsLoop_alias[OF ne])
  finally show ?thesis
    unfolding same a1 a2 append_Nil .
qed

lemma afterPrev_lines:
  "l \<in> set (afterPrev prev rs) \<Longrightarrow> \<exists>r \<in> set rs. l = r \<or> l = resetLine r"
  by (induction rs arbitrary: prev) (auto split: if_splits)

lemma tagLines_lines:
  assumes "l \<in> set (tagLines f ls lwf [])"
  shows "\<exists>l0 \<in> set ls. retained l0 \<and> (l = parseTags l0 \<or> l = resetLine (parseTags l0))"
proof (cases "allowFastMoves f")
  case True
  from assms tagLines_afterPrev[OF True, of ls lwf "[]"]
  have "l \<in> set (afterPrev lwf (map parseTags (filter retained ls)))" by simp
  from afterPrev_lines[OF this] show ?thesis by auto
next
  case False
  from assms tagLines_drilling[OF False, of ls lwf "[]"] show ?thesis by auto
qed

lemma parseTags_RESET:
  "''RESET-FR'' \<in> set (tags (parseTags l)) \<longleftrightarrow> ''RESET-FR'' \<in> set (tags l)"
  by (auto simp: parseTags_def Let_def tags_setTag)

lemma G1_not_ignored: "calcIgnored ''G1'' = False"
  by code_simp

lemma G1_not_comment: "calcComment ''G1'' = False"
  by (simp add: calcComment_def)

lemma G1_not_blank: "length (trim ''G1'') = 2"
  by code_simp

lemma resetLine_kind:
  "ignored (resetLine l) = False" "isComment (resetLine l) = False"
  by (simp_all add: resetLine_def clone_def newLine_def G1_not_ignored G1_not_comment)

lemma contentLine_reset:
  assumes "filtered ps" and "\<not> set (filterTags ps) \<subseteq> {''RESET-FR''}"
  shows "contentLine b ps f (resetLine l) = []"
proof -
  from assms(2) have "\<not> matchTags (resetLine l) (filterTags ps)"
    by (auto simp: matchTags_def resetLine_fields list_all_iff)
  with assms(1) show ?thesis
    by (simp add: contentLine_def resetLine_kind resetLine_fields G1_not_blank)
qed

text \<open>
  C10. After the tagging of a group whose lines had no tag RESET-FR before, a line with
  the tag RESET-FR is a synthetic line: its text is G1 and RESET-FR is its only tag, as
  the tags of the text and of the coordinates are never derived for it. With an active
  filter that asks for any other tag, the line gives no content line.
\<close>

theorem reset_line_tags:
  assumes "\<forall>f \<in> set grp. lines f < nextRef st"
    and "\<forall>f \<in> set grp. \<forall>l \<in> set (arrays st (lines f)). ''RESET-FR'' \<notin> set (tags l)"
    and "addTagsToLines grp st = (grp1, st1)"
    and "f \<in> set grp1" and "l \<in> set (fileLines st1 f)" and "''RESET-FR'' \<in> set (tags l)"
  shows "tags l = [''RESET-FR''] \<and> raw l = ''G1''
         \<and> (filtered ps \<and> \<not> set (filterTags ps) \<subseteq> {''RESET-FR''} \<longrightarrow> contentLine b ps f l = [])"
proof -
  from assms(3) addTagsToLines_alias[OF assms(1)]
  have g: "grp1 = map (\<lambda>f. f\<lparr>lines := nextRef st\<rparr>) grp"
    and s: "arrays st1 (nextRef st)
            = concat (map (\<lambda>f. tagLines f (arrays st (lines f)) False []) grp)"
    by auto
  from assms(4) g have "lines f = nextRef st" by auto
  with assms(5) s obtain f0 where f0: "f0 \<in> set grp"
      "l \<in> set (tagLines f0 (arrays st (lines f0)) False [])"
    by (auto simp: fileLines_def)
  from tagLines_lines[OF f0(2)] obtain l0 where l0: "l0 \<in> set (arrays st (lines f0))"
      "l = parseTags l0 \<or> l = resetLine (parseTags l0)" by blast
  from assms(2) f0(1) l0(1) have "''RESET-FR'' \<notin> set (tags (parseTags l0))"
    by (simp add: parseTags_RESET)
  with l0(2) assms(6) have e: "l = resetLine (parseTags l0)" by blast
  show ?thesis
    unfolding e using contentLine_reset[of ps b f "parseTags l0"]
    by (simp add: resetLine_fields)
qed

theorem reset_line_tags_witness:
  "hd (fst plungeTagged) \<in> set (fst plungeTagged)
   \<and> fileLines (snd plungeTagged) (hd (fst plungeTagged)) ! 1
       \<in> set (fileLines (snd plungeTagged) (hd (fst plungeTagged)))
   \<and> ''RESET-FR'' \<in> set (tags (fileLines (snd plungeTagged) (hd (fst plungeTagged)) ! 1))
   \<and> filtered fastFilter \<and> \<not> set (filterTags fastFilter) \<subseteq> {''RESET-FR''}
   \<and> tags (fileLines (snd plungeTagged) (hd (fst plungeTagged)) ! 1) = [''RESET-FR'']
   \<and> raw (fileLines (snd plungeTagged) (hd (fst plungeTagged)) ! 1) = ''G1''
   \<and> contentLine decimalBuiltins fastFilter (hd (fst plungeTagged))
        (fileLines (snd plungeTagged) (hd (fst plungeTagged)) ! 1) = []"
proof -
  have h1: "\<forall>f \<in> set (fst plungeLoad). lines f < nextRef (snd plungeLoad)" by code_simp
  have h2: "\<forall>f \<in> set (fst plungeLoad). \<forall>l \<in> set (arrays (snd plungeLoad) (lines f)).
          ''RESET-FR'' \<notin> set (tags l)" by code_simp
  have h3: "addTagsToLines (fst plungeLoad) (snd plungeLoad) = (fst plungeTagged, snd plungeTagged)"
    by (simp add: plungeTagged_def)
  have h4: "hd (fst plungeTagged) \<in> set (fst plungeTagged)" by code_simp
  have h5: "fileLines (snd plungeTagged) (hd (fst plungeTagged)) ! 1
       \<in> set (fileLines (snd plungeTagged) (hd (fst plungeTagged)))" by code_simp
  have h6: "''RESET-FR'' \<in> set (tags (fileLines (snd plungeTagged) (hd (fst plungeTagged)) ! 1))"
    by code_simp
  have h7: "filtered fastFilter \<and> \<not> set (filterTags fastFilter) \<subseteq> {''RESET-FR''}"
    by (simp add: fastFilter_def)
  from reset_line_tags[OF h1 h2 h3 h4 h5 h6, of fastFilter decimalBuiltins] h4 h5 h6 h7
  show ?thesis by blast
qed

section \<open>The content lines of a member\<close>

lemma member_lines_shared:
  assumes "\<forall>f \<in> set grp. lines f < nextRef st"
    and "addTagsToLines grp st = (grp1, st1)" and "f \<in> set grp1"
  shows "fileLines st1 f = concat (map (\<lambda>g. tagLines g (arrays st (lines g)) False []) grp)
         \<and> (\<forall>l \<in> set (fileLines st1 f). \<not> isComment l)"
proof -
  from assms(2) addTagsToLines_alias[OF assms(1)]
  have g: "grp1 = map (\<lambda>f. f\<lparr>lines := nextRef st\<rparr>) grp"
    and s: "arrays st1 (nextRef st)
            = concat (map (\<lambda>f. tagLines f (arrays st (lines f)) False []) grp)"
    by auto
  from assms(3) g have r: "lines f = nextRef st" by auto
  have "\<not> isComment l" if "l \<in> set (fileLines st1 f)" for l
  proof -
    from that r s obtain f0 where "l \<in> set (tagLines f0 (arrays st (lines f0)) False [])"
      by (auto simp: fileLines_def)
    from tagLines_lines[OF this] obtain l0 where "retained l0"
      "l = parseTags l0 \<or> l = resetLine (parseTags l0)" by blast
    then show ?thesis
      by (auto simp: retained_def resetLine_kind)
  qed
  with r s show ?thesis by (simp add: fileLines_def)
qed

lemma content_line_unpadded:
  assumes "\<not> allowFastMoves f" and "retained l" and "\<not> filtered ps"
  shows "contentLine b ps f l = [processFeedRate b ps (raw l)]"
proof -
  have nd: "\<not> isDigit CHR '';''"
    by (simp add: isDigit_def)
  from assms show ?thesis
    by (simp add: contentLine_def retained_def padEndString_def padEnd_def Let_def nd)
qed

text \<open>
  C4, at the group of two operations. The first member is the file op1.nc, with one comment
  line and one retained line of its own. Its block has the clearance line, the statistics
  and then the lines of both members; the comment line is not in it. (The first 8
  characters of each string of the block are shown.)
\<close>

theorem member_block_defect:
  "map path (fst twoOpsTagged) = [''op1.nc'', ''op2.nc'']
   \<and> map raw (filter isComment (fileLines (snd twoOpsLoad) (hd twoOpsGroup))) = [''(A)'']
   \<and> map raw (filter retained (fileLines (snd twoOpsLoad) (hd twoOpsGroup))) = [''G1 X1'']
   \<and> map (take 8)
        (fst (memberBlock decimalBuiltins noParams (snd twoOpsTagged) 0 (hd (fst twoOpsTagged))))
       = [''G0 Z5\<newline>\<newline>'', ''; FILE 1'', ''(       '', ''(       '', [],
          ''G0 X1   '', ''G0 X2   '', [], [], [], [], [], [], [], [], [], []]"
  by code_simp

text \<open>
  C5, at the drilling file of the example. Its retained line is emitted as its text alone:
  not padded to the width 50, and with no trailing comment.
\<close>

theorem content_line_drilling_defect:
  "isDrilling (hd (fst drillLoad))
   \<and> raw (fileLines (snd drillLoad) (hd (fst drillLoad)) ! 1) = ''G1 X1 Z-3''
   \<and> retained (fileLines (snd drillLoad) (hd (fst drillLoad)) ! 1)
   \<and> contentLine decimalBuiltins noParams (hd (fst drillLoad))
        (parseTags (fileLines (snd drillLoad) (hd (fst drillLoad)) ! 1)) = [''G1 X1 Z-3'']"
  by code_simp


section \<open>Merge order\<close>

lemma orZero_not_NaN [simp]: "orZero v \<noteq> NaN"
  by (simp add: orZero_def)

lemma compare_rank:
  "u \<noteq> NaN \<Longrightarrow> v \<noteq> NaN \<Longrightarrow> num_lt (Fin 0) (num_sub u v) \<longleftrightarrow> \<not> rank u \<le> rank v"
  by (cases u; cases v) (auto simp: rank_def)

lemma rank_le: "u \<noteq> NaN \<Longrightarrow> v \<noteq> NaN \<Longrightarrow> rank u \<le> rank v \<longleftrightarrow> num_le u v"
  by (cases u; cases v) (auto simp: rank_def)

lemma rank_eq [simp]: "rank u = rank v \<longleftrightarrow> u = v"
  by (cases u; cases v) (auto simp: rank_def)

lemma insertSorted_insort:
  "insertSorted compareOperation x ys = insort_key operationKey x ys"
  by (induction ys) (simp_all add: compareOperation_def operationKey_def compare_rank)

lemma sortByOperation_sort_key: "sortByOperation fs = sort_key operationKey fs"
proof -
  have "insertSorted compareOperation = insort_key operationKey"
    by (intro ext) (rule insertSorted_insort)
  then show ?thesis
    by (simp add: sortByOperation_def stableSort_def sort_key_def)
qed

lemma sortByOperation_sorted: "sorted (map operationKey (sortByOperation fs))"
  by (simp add: sortByOperation_sort_key)

lemma sortByOperation_mset: "mset (sortByOperation fs) = mset fs"
  by (simp add: sortByOperation_sort_key)

lemma sortByOperation_stable:
  "filter (\<lambda>f. orZero (operation f) = v) (sortByOperation fs)
     = filter (\<lambda>f. orZero (operation f) = v) fs"
  using sort_key_stable[of operationKey "rank v" fs]
  by (simp add: sortByOperation_sort_key operationKey_def)

lemma sorted_key_nth:
  assumes "sorted (map operationKey g)" and "i \<le> j" and "j < length g"
  shows "num_le (orZero (operation (g ! i))) (orZero (operation (g ! j)))"
proof -
  from sorted_nth_mono[OF assms(1), of i j] assms(2,3)
  have "operationKey (g ! i) \<le> operationKey (g ! j)" by simp
  then show ?thesis by (simp add: operationKey_def rank_le)
qed

lemma groupPush_keys: "map fst (groupPush k f m) = (if k \<in> set (map fst m) then map fst m else map fst m @ [k])"
proof (induction m)
  case Nil
  then show ?case by simp
next
  case (Cons a m)
  obtain k1 g where a: "a = (k1, g)" by (cases a)
  show ?case
  proof (cases "k1 = k")
    case True
    then show ?thesis by (simp add: a)
  next
    case False
    with Cons.IH show ?thesis by (simp add: a)
  qed
qed

lemma groupPush_distinct: "distinct (map fst m) \<Longrightarrow> distinct (map fst (groupPush k f m))"
  by (simp add: groupPush_keys)

lemma groupPush_map_of:
  "map_of (groupPush k f m) = (map_of m)(k \<mapsto> (case map_of m k of None \<Rightarrow> [f] | Some g \<Rightarrow> g @ [f]))"
  by (induction m) (auto simp: fun_eq_iff)

lemma group_fold:
  "distinct (map fst m) \<Longrightarrow>
     distinct (map fst (foldl (\<lambda>m f. groupPush (groupKey f) f m) m fs))
     \<and> map_of (foldl (\<lambda>m f. groupPush (groupKey f) f m) m fs) k
         = (case map_of m k of
              None \<Rightarrow> (if filter (\<lambda>f. groupKey f = k) fs = [] then None
                         else Some (filter (\<lambda>f. groupKey f = k) fs))
            | Some g \<Rightarrow> Some (g @ filter (\<lambda>f. groupKey f = k) fs))"
proof (induction fs arbitrary: m)
  case Nil
  then show ?case by (simp split: option.splits)
next
  case (Cons f fs)
  from Cons.IH[OF groupPush_distinct[OF Cons.prems], of "groupKey f" f]
  show ?case
    by (auto simp: groupPush_map_of split: option.splits)
qed

lemma group_map_of:
  "distinct (map fst (groupBySetupAndTool fs))"
  "map_of (groupBySetupAndTool fs) k
     = (if filter (\<lambda>f. groupKey f = k) fs = [] then None
        else Some (filter (\<lambda>f. groupKey f = k) fs))"
  using group_fold[of "[]" fs k] by (simp_all add: groupBySetupAndTool_def)

lemma group_members:
  assumes "(k, g) \<in> set (groupBySetupAndTool fs)"
  shows "g = filter (\<lambda>f. groupKey f = k) fs"
  using map_of_is_SomeI[OF group_map_of(1) assms] group_map_of(2)[of fs k]
  by (simp split: if_splits)

lemma group_exists:
  assumes "f \<in> set fs"
  shows "\<exists>g. (groupKey f, g) \<in> set (groupBySetupAndTool fs) \<and> f \<in> set g"
proof -
  from assms have ne: "filter (\<lambda>h. groupKey h = groupKey f) fs \<noteq> []"
    by (auto simp: filter_empty_conv)
  with group_map_of(2)[of fs "groupKey f"]
  have "map_of (groupBySetupAndTool fs) (groupKey f)
          = Some (filter (\<lambda>h. groupKey h = groupKey f) fs)" by simp
  from map_of_SomeD[OF this] assms show ?thesis by auto
qed

lemma sorted_filter_map: "sorted (map h xs) \<Longrightarrow> sorted (map h (filter P xs))"
  by (induction xs) auto


lemma memberBlocks_length [simp]: "length (memberBlocks b ps st cnt fs) = length fs"
  by (induction fs arbitrary: cnt) (simp_all split: prod.splits)

lemma memberBlocks_nth:
  "i < length fs \<Longrightarrow> \<exists>c. memberBlocks b ps st cnt fs ! i = fst (memberBlock b ps st c (fs ! i))"
proof (induction fs arbitrary: cnt i)
  case Nil
  then show ?case by simp
next
  case (Cons f fs)
  obtain blk c1 where m: "memberBlock b ps st cnt f = (blk, c1)" by (cases "memberBlock b ps st cnt f")
  show ?case
  proof (cases i)
    case 0
    with m show ?thesis by (auto intro: exI[of _ cnt])
  next
    case (Suc k)
    with Cons.prems have "k < length fs" by simp
    from Cons.IH[OF this, of c1] Suc m show ?thesis by simp
  qed
qed

lemma contentLoop_blocks:
  "contentLoop b ps st fs (cl, sl, cnt) = (cl1, sl1, cnt1) \<Longrightarrow>
     cl1 = cl @ concat (memberBlocks b ps st cnt fs) \<and> dom sl1 = dom sl \<union> path ` set fs"
proof (induction fs arbitrary: cl sl cnt)
  case Nil
  then show ?case by simp
next
  case (Cons f fs)
  obtain blk c1 where m: "memberBlock b ps st cnt f = (blk, c1)" by (cases "memberBlock b ps st cnt f")
  from Cons.prems m
  have "contentLoop b ps st fs (cl @ blk, sl(path f \<mapsto> length cl + 1), c1) = (cl1, sl1, cnt1)"
    by simp
  from Cons.IH[OF this] m show ?case by auto
qed

lemma memberBlock_shared:
  assumes "\<forall>l \<in> set (arrays st1 (lines f)). \<not> isComment l"
  shows "fst (memberBlock b ps st1 c f)
           = [''G0 Z5'' @ [CHR 0x0A, CHR 0x0A]] @ statsBlock b c f
             @ concat (map (contentLine b ps f) (arrays st1 (lines f))) @ replicate 10 ''''"
proof -
  from assms have "filter isComment (arrays st1 (lines f)) = []"
    by (simp add: filter_empty_conv)
  then show ?thesis
    by (simp add: memberBlock_def statsBlock_def Let_def)
qed

lemma contentLine_lines [simp]: "contentLine b ps (f\<lparr>lines := r\<rparr>) = contentLine b ps f"
  by (rule ext) (simp add: contentLine_def)

lemma concat_map_concat_map:
  "concat (map F (concat (map T g))) = concat (map (\<lambda>x. concat (map F (T x))) g)"
  by (induction g) simp_all

lemma statsBlock_lines [simp]: "statsBlock b c (f\<lparr>lines := r\<rparr>) = statsBlock b c f"
  by (simp add: statsBlock_def)

lemma aggregateLoop_lines:
  "aggregateLoop (map (\<lambda>f. f\<lparr>lines := r\<rparr>) g) acc = aggregateLoop g acc"
  by (induction g acc rule: aggregateLoop.induct) (simp_all split: option.splits)

lemma preamble_lines [simp]: "preamble b ps (map (\<lambda>f. f\<lparr>lines := r\<rparr>) g) = preamble b ps g"
  by (simp add: preamble_def aggregateStats_def aggregateLoop_lines)


lemma mergeGroup_shape:
  assumes ext: "extends st st0" and ref: "\<forall>f \<in> set g. lines f < nextRef st"
    and mg: "mergeGroup b ps g st0 = (m, st1)"
  shows "extends st st1
         \<and> (\<exists>hs bs. m = [''(MERGED)'', ''''] @ hs @ preamble b ps g @ concat bs
                          @ [''G0 Z5'', ''G0 X0 Y0'']
               \<and> length hs = length g \<and> length bs = length g
               \<and> (\<forall>i < length g.
                    (\<exists>n. hs ! i = ''('' @ padStart (numToString b (Fin (of_nat n))) 5 @ '' - ''
                                    @ basename (path (g ! i)) @ '')'')
                  \<and> (\<exists>c. bs ! i = [''G0 Z5'' @ [CHR 0x0A, CHR 0x0A]] @ statsBlock b c (g ! i)
                                    @ concat (map (memberText b ps st (g ! i)) g)
                                    @ replicate 10 '''')))"
proof -
  define r where "r = nextRef st0"
  define g1 where "g1 = map (\<lambda>f. f\<lparr>lines := r\<rparr>) g"
  define shared where "shared = concat (map (taggedLines st) g)"
  from ext have le: "nextRef st \<le> nextRef st0"
    and same: "\<And>q. q < nextRef st \<Longrightarrow> arrays st0 q = arrays st q"
    by (simp_all add: extends_def)
  from ref le have ref0: "\<forall>f \<in> set g. lines f < nextRef st0" by auto
  have tl: "map (\<lambda>f. tagLines f (arrays st0 (lines f)) False []) g = map (taggedLines st) g"
    using ref same by (simp add: taggedLines_def)
  obtain ga sa where a: "addTagsToLines g st0 = (ga, sa)" by (cases "addTagsToLines g st0")
  from a addTagsToLines_alias[OF ref0]
  have ga: "ga = g1" and arr: "arrays sa = (arrays st0)(r := shared)"
    and nr: "nextRef sa = Suc r"
    by (auto simp: g1_def r_def shared_def tl)
  obtain cl sl cnt where c: "contentLoop b ps sa g1 (preamble b ps g1, Map.empty, 0) = (cl, sl, cnt)"
    by (cases "contentLoop b ps sa g1 (preamble b ps g1, Map.empty, 0)")
  from contentLoop_blocks[OF c]
  have cl: "cl = preamble b ps g @ concat (memberBlocks b ps sa 0 g1)"
    and dm: "dom sl = path ` set g"
    by (simp_all add: g1_def image_image)
  define hs where "hs = map (headerLine b (2 + length g1) sl) g1"
  define bs where "bs = memberBlocks b ps sa 0 g1"
  from mg a ga c cl
  have m: "m = [''(MERGED)'', ''''] @ hs @ preamble b ps g @ concat bs @ [''G0 Z5'', ''G0 X0 Y0'']"
    and s1: "st1 = sa"
    by (auto simp: mergeGroup_def buildContentLines_def hs_def bs_def)
  have e: "extends st st1"
    using le same by (simp add: extends_def s1 arr nr r_def)
  have nc: "\<not> isComment l" if "l \<in> set shared" for l
  proof -
    from that obtain f0 where "l \<in> set (tagLines f0 (arrays st (lines f0)) False [])"
      by (auto simp: shared_def taggedLines_def)
    from tagLines_lines[OF this] obtain l0 where "retained l0"
      "l = parseTags l0 \<or> l = resetLine (parseTags l0)" by blast
    then show ?thesis
      by (auto simp: retained_def resetLine_kind)
  qed
  have each: "(\<exists>n. hs ! i = ''('' @ padStart (numToString b (Fin (of_nat n))) 5 @ '' - ''
                                    @ basename (path (g ! i)) @ '')'')
              \<and> (\<exists>c. bs ! i = [''G0 Z5'' @ [CHR 0x0A, CHR 0x0A]] @ statsBlock b c (g ! i)
                                    @ concat (map (memberText b ps st (g ! i)) g)
                                    @ replicate 10 '''')"
    if i: "i < length g" for i
  proof -
    from i have gi: "g1 ! i = (g ! i)\<lparr>lines := r\<rparr>" by (simp add: g1_def)
    from i have "path (g ! i) \<in> path ` set g" by simp
    with dm obtain n where n: "sl (path (g ! i)) = Some n" by auto
    from i have h: "hs ! i = ''('' @ padStart (numToString b (Fin (of_nat (2 + length g + n)))) 5
                               @ '' - '' @ basename (path (g ! i)) @ '')''"
      by (simp add: hs_def headerLine_def gi n g1_def)
    from i have "i < length g1" by (simp add: g1_def)
    from memberBlocks_nth[OF this, of b ps sa 0]
    obtain c where "bs ! i = fst (memberBlock b ps sa c (g1 ! i))" by (auto simp: bs_def)
    also have "\<dots> = [''G0 Z5'' @ [CHR 0x0A, CHR 0x0A]] @ statsBlock b c (g1 ! i)
             @ concat (map (contentLine b ps (g1 ! i)) (arrays sa (lines (g1 ! i))))
             @ replicate 10 ''''"
      by (rule memberBlock_shared) (simp add: gi arr nc)
    also have "\<dots> = [''G0 Z5'' @ [CHR 0x0A, CHR 0x0A]] @ statsBlock b c (g ! i)
             @ concat (map (memberText b ps st (g ! i)) g) @ replicate 10 ''''"
      by (simp add: gi arr shared_def memberText_def[abs_def] concat_map_concat_map)
    finally show ?thesis using h by blast
  qed
  have "length hs = length g" "length bs = length g"
    by (simp_all add: hs_def bs_def g1_def)
  with e m each show ?thesis by blast
qed

lemma mergeLoop_shape:
  assumes "extends st st0" and "\<forall>kg \<in> set groups. \<forall>f \<in> set (snd kg). lines f < nextRef st"
  shows "map fst (mergeLoop b ps groups st0) = map fst groups
         \<and> (\<forall>k < length groups.
              \<exists>hs bs. snd (mergeLoop b ps groups st0 ! k)
                        = [''(MERGED)'', ''''] @ hs @ preamble b ps (snd (groups ! k)) @ concat bs
                          @ [''G0 Z5'', ''G0 X0 Y0'']
               \<and> length hs = length (snd (groups ! k)) \<and> length bs = length (snd (groups ! k))
               \<and> (\<forall>i < length (snd (groups ! k)).
                    (\<exists>n. hs ! i = ''('' @ padStart (numToString b (Fin (of_nat n))) 5 @ '' - ''
                                    @ basename (path (snd (groups ! k) ! i)) @ '')'')
                  \<and> (\<exists>c. bs ! i = [''G0 Z5'' @ [CHR 0x0A, CHR 0x0A]]
                                    @ statsBlock b c (snd (groups ! k) ! i)
                                    @ concat (map (memberText b ps st (snd (groups ! k) ! i))
                                                (snd (groups ! k)))
                                    @ replicate 10 '''')))"
  using assms
proof (induction groups arbitrary: st0)
  case Nil
  then show ?case by simp
next
  case (Cons kg groups)
  obtain key g where kg: "kg = (key, g)" by (cases kg)
  obtain m st1 where mg: "mergeGroup b ps g st0 = (m, st1)" by (cases "mergeGroup b ps g st0")
  from Cons.prems(2) kg have ref: "\<forall>f \<in> set g. lines f < nextRef st" by simp
  from mergeGroup_shape[OF Cons.prems(1) ref mg]
  have e1: "extends st st1"
    and sh: "\<exists>hs bs. m = [''(MERGED)'', ''''] @ hs @ preamble b ps g @ concat bs
                          @ [''G0 Z5'', ''G0 X0 Y0'']
               \<and> length hs = length g \<and> length bs = length g
               \<and> (\<forall>i < length g.
                    (\<exists>n. hs ! i = ''('' @ padStart (numToString b (Fin (of_nat n))) 5 @ '' - ''
                                    @ basename (path (g ! i)) @ '')'')
                  \<and> (\<exists>c. bs ! i = [''G0 Z5'' @ [CHR 0x0A, CHR 0x0A]] @ statsBlock b c (g ! i)
                                    @ concat (map (memberText b ps st (g ! i)) g)
                                    @ replicate 10 ''''))"
    by blast+
  from Cons.prems(2) have "\<forall>kg \<in> set groups. \<forall>f \<in> set (snd kg). lines f < nextRef st" by simp
  from Cons.IH[OF e1 this]
  have ih1: "map fst (mergeLoop b ps groups st1) = map fst groups"
    and ih2: "\<And>k. k < length groups \<Longrightarrow>
              \<exists>hs bs. snd (mergeLoop b ps groups st1 ! k)
                        = [''(MERGED)'', ''''] @ hs @ preamble b ps (snd (groups ! k)) @ concat bs
                          @ [''G0 Z5'', ''G0 X0 Y0'']
               \<and> length hs = length (snd (groups ! k)) \<and> length bs = length (snd (groups ! k))
               \<and> (\<forall>i < length (snd (groups ! k)).
                    (\<exists>n. hs ! i = ''('' @ padStart (numToString b (Fin (of_nat n))) 5 @ '' - ''
                                    @ basename (path (snd (groups ! k) ! i)) @ '')'')
                  \<and> (\<exists>c. bs ! i = [''G0 Z5'' @ [CHR 0x0A, CHR 0x0A]]
                                    @ statsBlock b c (snd (groups ! k) ! i)
                                    @ concat (map (memberText b ps st (snd (groups ! k) ! i))
                                                (snd (groups ! k)))
                                    @ replicate 10 ''''))"
    by blast+
  have ml: "mergeLoop b ps (kg # groups) st0 = (key, m) # mergeLoop b ps groups st1"
    by (simp add: kg mg)
  show ?case
  proof (intro conjI allI impI)
    show "map fst (mergeLoop b ps (kg # groups) st0) = map fst (kg # groups)"
      unfolding ml by (simp add: ih1 kg)
  next
    fix k assume k: "k < length (kg # groups)"
    show "\<exists>hs bs. snd (mergeLoop b ps (kg # groups) st0 ! k)
                        = [''(MERGED)'', ''''] @ hs @ preamble b ps (snd ((kg # groups) ! k)) @ concat bs
                          @ [''G0 Z5'', ''G0 X0 Y0'']
               \<and> length hs = length (snd ((kg # groups) ! k)) \<and> length bs = length (snd ((kg # groups) ! k))
               \<and> (\<forall>i < length (snd ((kg # groups) ! k)).
                    (\<exists>n. hs ! i = ''('' @ padStart (numToString b (Fin (of_nat n))) 5 @ '' - ''
                                    @ basename (path (snd ((kg # groups) ! k) ! i)) @ '')'')
                  \<and> (\<exists>c. bs ! i = [''G0 Z5'' @ [CHR 0x0A, CHR 0x0A]]
                                    @ statsBlock b c (snd ((kg # groups) ! k) ! i)
                                    @ concat (map (memberText b ps st (snd ((kg # groups) ! k) ! i))
                                                (snd ((kg # groups) ! k)))
                                    @ replicate 10 ''''))"
    proof (cases k)
      case 0
      with sh show ?thesis unfolding ml by (simp add: kg)
    next
      case (Suc j)
      with k have "j < length groups" by simp
      from ih2[OF this] show ?thesis unfolding ml Suc by simp
    qed
  qed
qed


text \<open>
  C7. The files are ordered by a stable ascending sort on the operation index, as the
  comparator orders it (the index or 0): the result is sorted, it is a permutation of the
  files, and the files of one index keep their order; a path without an index gives the
  index 0. Every file is in the group of its key. Each group holds the files of its key in
  the sorted order, so its members are sorted by index, and a member of index 1 comes before
  a member of index 2. The merged file of a group is the two header lines, one header line
  for each member in the order of the group, naming its file, then the preamble, one block
  for each member in the order of the group, and the two closing lines. In every block the
  lines pushed for the members come in the order of the group (every block prints the lines
  of all the members, since the members share one array of lines): so in the header, in the
  sequence of the blocks and inside each block, a file of index 1 comes before a file of
  index 2 of the same group.
\<close>

theorem merge_order:
  assumes "\<forall>f \<in> set fileList. lines f < nextRef st"
  shows
  "(\<forall>i j. i \<le> j \<and> j < length (sortByOperation fileList) \<longrightarrow>
       num_le (orZero (operation (sortByOperation fileList ! i)))
              (orZero (operation (sortByOperation fileList ! j))))
   \<and> mset (sortByOperation fileList) = mset fileList
   \<and> (\<forall>v. filter (\<lambda>f. orZero (operation f) = v) (sortByOperation fileList)
            = filter (\<lambda>f. orZero (operation f) = v) fileList)
   \<and> (extractOperation b p = None \<longrightarrow> operation (newFileObject b p r ls) = Fin 0)
   \<and> (\<forall>f \<in> set fileList.
         \<exists>g. (groupKey f, g) \<in> set (groupBySetupAndTool (sortByOperation fileList)) \<and> f \<in> set g)
   \<and> map fst (mergeBySetupAndTool b ps fileList st)
       = map fst (groupBySetupAndTool (sortByOperation fileList))
   \<and> (\<forall>k < length (groupBySetupAndTool (sortByOperation fileList)).
         case groupBySetupAndTool (sortByOperation fileList) ! k of
           (key, g) \<Rightarrow>
             g = filter (\<lambda>f. groupKey f = key) (sortByOperation fileList)
             \<and> (\<forall>i j. i \<le> j \<and> j < length g \<longrightarrow>
                    num_le (orZero (operation (g ! i))) (orZero (operation (g ! j))))
             \<and> (\<forall>i j. i < length g \<and> j < length g
                    \<and> operation (g ! i) = Fin 1 \<and> operation (g ! j) = Fin 2 \<longrightarrow> i < j)
             \<and> (\<exists>hs bs.
                   snd (mergeBySetupAndTool b ps fileList st ! k)
                     = [''(MERGED)'', ''''] @ hs @ preamble b ps g @ concat bs
                       @ [''G0 Z5'', ''G0 X0 Y0'']
                   \<and> length hs = length g \<and> length bs = length g
                   \<and> (\<forall>i < length g.
                        (\<exists>n. hs ! i = ''('' @ padStart (numToString b (Fin (of_nat n))) 5
                                        @ '' - '' @ basename (path (g ! i)) @ '')'')
                        \<and> (\<exists>c. bs ! i = [''G0 Z5'' @ [CHR 0x0A, CHR 0x0A]]
                                          @ statsBlock b c (g ! i)
                                          @ concat (map (memberText b ps st (g ! i)) g)
                                          @ replicate 10 ''''))))"
proof -
  define s where "s = sortByOperation fileList"
  define groups where "groups = groupBySetupAndTool s"
  have srt: "sorted (map operationKey s)"
    unfolding s_def by (rule sortByOperation_sorted)
  have ms: "mset s = mset fileList"
    unfolding s_def by (rule sortByOperation_mset)
  then have st: "set s = set fileList" by (rule mset_eq_setD)
  have c1: "\<forall>i j. i \<le> j \<and> j < length s \<longrightarrow>
       num_le (orZero (operation (s ! i))) (orZero (operation (s ! j)))"
    using sorted_key_nth[OF srt] by blast
  have c3: "\<forall>v. filter (\<lambda>f. orZero (operation f) = v) s
            = filter (\<lambda>f. orZero (operation f) = v) fileList"
    unfolding s_def by (simp add: sortByOperation_stable)
  have c4: "extractOperation b p = None \<longrightarrow> operation (newFileObject b p r ls) = Fin 0"
    by (simp add: newFileObject_def)
  have c5: "\<forall>f \<in> set fileList. \<exists>g. (groupKey f, g) \<in> set groups \<and> f \<in> set g"
    unfolding groups_def using group_exists[of _ s] st by blast
  have refs: "\<forall>kg \<in> set groups. \<forall>f \<in> set (snd kg). lines f < nextRef st"
  proof (intro ballI)
    fix kg f assume kg: "kg \<in> set groups" and f: "f \<in> set (snd kg)"
    from kg have "(fst kg, snd kg) \<in> set (groupBySetupAndTool s)" by (simp add: groups_def)
    from group_members[OF this] f have "f \<in> set s" by auto
    with st assms show "lines f < nextRef st" by simp
  qed
  have ext: "extends st st" by (simp add: extends_def)
  from mergeLoop_shape[OF ext refs, of b ps]
  have c6: "map fst (mergeBySetupAndTool b ps fileList st) = map fst groups"
    and lay: "\<And>k. k < length groups \<Longrightarrow>
              \<exists>hs bs. snd (mergeBySetupAndTool b ps fileList st ! k)
                        = [''(MERGED)'', ''''] @ hs @ preamble b ps (snd (groups ! k)) @ concat bs
                          @ [''G0 Z5'', ''G0 X0 Y0'']
               \<and> length hs = length (snd (groups ! k)) \<and> length bs = length (snd (groups ! k))
               \<and> (\<forall>i < length (snd (groups ! k)).
                    (\<exists>n. hs ! i = ''('' @ padStart (numToString b (Fin (of_nat n))) 5 @ '' - ''
                                    @ basename (path (snd (groups ! k) ! i)) @ '')'')
                  \<and> (\<exists>c. bs ! i = [''G0 Z5'' @ [CHR 0x0A, CHR 0x0A]]
                                    @ statsBlock b c (snd (groups ! k) ! i)
                                    @ concat (map (memberText b ps st (snd (groups ! k) ! i))
                                                (snd (groups ! k)))
                                    @ replicate 10 ''''))"
    unfolding mergeBySetupAndTool_def groups_def s_def by blast+
  have c7: "case groups ! k of
           (key, g) \<Rightarrow>
             g = filter (\<lambda>f. groupKey f = key) s
             \<and> (\<forall>i j. i \<le> j \<and> j < length g \<longrightarrow>
                    num_le (orZero (operation (g ! i))) (orZero (operation (g ! j))))
             \<and> (\<forall>i j. i < length g \<and> j < length g
                    \<and> operation (g ! i) = Fin 1 \<and> operation (g ! j) = Fin 2 \<longrightarrow> i < j)
             \<and> (\<exists>hs bs.
                   snd (mergeBySetupAndTool b ps fileList st ! k)
                     = [''(MERGED)'', ''''] @ hs @ preamble b ps g @ concat bs
                       @ [''G0 Z5'', ''G0 X0 Y0'']
                   \<and> length hs = length g \<and> length bs = length g
                   \<and> (\<forall>i < length g.
                        (\<exists>n. hs ! i = ''('' @ padStart (numToString b (Fin (of_nat n))) 5
                                        @ '' - '' @ basename (path (g ! i)) @ '')'')
                        \<and> (\<exists>c. bs ! i = [''G0 Z5'' @ [CHR 0x0A, CHR 0x0A]]
                                          @ statsBlock b c (g ! i)
                                          @ concat (map (memberText b ps st (g ! i)) g)
                                          @ replicate 10 '''')))"
    if k: "k < length groups" for k
  proof -
    obtain key g where kg: "groups ! k = (key, g)" by (cases "groups ! k")
    from k kg have "(key, g) \<in> set (groupBySetupAndTool s)"
      unfolding groups_def by (metis nth_mem)
    from group_members[OF this] have g: "g = filter (\<lambda>f. groupKey f = key) s" .
    have sg: "sorted (map operationKey g)"
      unfolding g by (rule sorted_filter_map[OF srt])
    have o: "\<forall>i j. i \<le> j \<and> j < length g \<longrightarrow>
                    num_le (orZero (operation (g ! i))) (orZero (operation (g ! j)))"
      using sorted_key_nth[OF sg] by blast
    have "i < j" if "i < length g" "j < length g" "operation (g ! i) = Fin 1"
      "operation (g ! j) = Fin 2" for i j
    proof (rule ccontr)
      assume "\<not> i < j"
      then have "j \<le> i" by simp
      from sorted_key_nth[OF sg this that(1)] that(3,4) show False
        by (simp add: orZero_def)
    qed
    then have t: "\<forall>i j. i < length g \<and> j < length g
                    \<and> operation (g ! i) = Fin 1 \<and> operation (g ! j) = Fin 2 \<longrightarrow> i < j"
      by blast
    from lay[OF k] g o t show ?thesis
      unfolding kg by simp
  qed
  from c1 ms c3 c4 c5 c6 c7 show ?thesis
    unfolding groups_def s_def by blast
qed

theorem merge_order_witness:
  "list_all (\<lambda>f. lines f < nextRef (snd twoOpsLoad)) (fst twoOpsLoad)
   \<and> map path (fst twoOpsLoad) = [''op2.nc'', ''op1.nc'']
   \<and> map operation (fst twoOpsLoad) = [Fin 2, Fin 1]
   \<and> length (groupBySetupAndTool (sortByOperation (fst twoOpsLoad))) = 1
   \<and> map path twoOpsGroup = [''op1.nc'', ''op2.nc'']
   \<and> map operation twoOpsGroup = [Fin 1, Fin 2]
   \<and> map (take 5)
        (concat (map (memberText decimalBuiltins noParams (snd twoOpsLoad) (twoOpsGroup ! 0))
                   twoOpsGroup))
       = [''G0 X1'', ''G0 X2'']
   \<and> (\<exists>hs bs.
         snd (mergeBySetupAndTool decimalBuiltins noParams (fst twoOpsLoad) (snd twoOpsLoad) ! 0)
           = [''(MERGED)'', ''''] @ hs @ preamble decimalBuiltins noParams twoOpsGroup @ concat bs
             @ [''G0 Z5'', ''G0 X0 Y0'']
         \<and> length hs = 2 \<and> length bs = 2
         \<and> (\<exists>n. hs ! 0 = ''('' @ padStart (numToString decimalBuiltins (Fin (of_nat n))) 5
                          @ '' - '' @ ''op1.nc'' @ '')'')
         \<and> (\<exists>n. hs ! 1 = ''('' @ padStart (numToString decimalBuiltins (Fin (of_nat n))) 5
                          @ '' - '' @ ''op2.nc'' @ '')'')
         \<and> (\<exists>c. bs ! 0 = [''G0 Z5'' @ [CHR 0x0A, CHR 0x0A]]
                  @ statsBlock decimalBuiltins c (twoOpsGroup ! 0)
                  @ concat (map (memberText decimalBuiltins noParams (snd twoOpsLoad)
                                   (twoOpsGroup ! 0)) twoOpsGroup)
                  @ replicate 10 '''')
         \<and> (\<exists>c. bs ! 1 = [''G0 Z5'' @ [CHR 0x0A, CHR 0x0A]]
                  @ statsBlock decimalBuiltins c (twoOpsGroup ! 1)
                  @ concat (map (memberText decimalBuiltins noParams (snd twoOpsLoad)
                                   (twoOpsGroup ! 1)) twoOpsGroup)
                  @ replicate 10 ''''))"
proof -
  have h: "\<forall>f \<in> set (fst twoOpsLoad). lines f < nextRef (snd twoOpsLoad)" by code_simp
  then have h': "list_all (\<lambda>f. lines f < nextRef (snd twoOpsLoad)) (fst twoOpsLoad)"
    by (simp add: list_all_iff)
  have p0: "map path (fst twoOpsLoad) = [''op2.nc'', ''op1.nc'']" by code_simp
  have o0: "map operation (fst twoOpsLoad) = [Fin 2, Fin 1]" by code_simp
  have n: "length (groupBySetupAndTool (sortByOperation (fst twoOpsLoad))) = 1" by code_simp
  have p: "map path twoOpsGroup = [''op1.nc'', ''op2.nc'']" by code_simp
  have o: "map operation twoOpsGroup = [Fin 1, Fin 2]" by code_simp
  have t: "map (take 5)
        (concat (map (memberText decimalBuiltins noParams (snd twoOpsLoad) (twoOpsGroup ! 0))
                   twoOpsGroup))
       = [''G0 X1'', ''G0 X2'']" by code_simp
  have b0: "basename (path (twoOpsGroup ! 0)) = ''op1.nc''" by code_simp
  have b1: "basename (path (twoOpsGroup ! 1)) = ''op2.nc''" by code_simp
  from p have len: "length twoOpsGroup = 2"
    by (metis length_map length_Cons list.size(3) One_nat_def Suc_1)
  from n have g: "snd (groupBySetupAndTool (sortByOperation (fst twoOpsLoad)) ! 0) = twoOpsGroup"
    by (cases "groupBySetupAndTool (sortByOperation (fst twoOpsLoad))") (simp_all add: twoOpsGroup_def)
  from n merge_order[OF h, of decimalBuiltins "[]" 0 "[]" noParams]
  have "case groupBySetupAndTool (sortByOperation (fst twoOpsLoad)) ! 0 of
          (key, g) \<Rightarrow>
            \<exists>hs bs.
               snd (mergeBySetupAndTool decimalBuiltins noParams (fst twoOpsLoad) (snd twoOpsLoad) ! 0)
                 = [''(MERGED)'', ''''] @ hs @ preamble decimalBuiltins noParams g @ concat bs
                   @ [''G0 Z5'', ''G0 X0 Y0'']
               \<and> length hs = length g \<and> length bs = length g
               \<and> (\<forall>i < length g.
                    (\<exists>n. hs ! i = ''('' @ padStart (numToString decimalBuiltins (Fin (of_nat n))) 5
                                    @ '' - '' @ basename (path (g ! i)) @ '')'')
                    \<and> (\<exists>c. bs ! i = [''G0 Z5'' @ [CHR 0x0A, CHR 0x0A]]
                                      @ statsBlock decimalBuiltins c (g ! i)
                                      @ concat (map (memberText decimalBuiltins noParams
                                                       (snd twoOpsLoad) (g ! i)) g)
                                      @ replicate 10 ''''))"
    by (auto split: prod.splits)
  then obtain hs bs where
    m: "snd (mergeBySetupAndTool decimalBuiltins noParams (fst twoOpsLoad) (snd twoOpsLoad) ! 0)
          = [''(MERGED)'', ''''] @ hs @ preamble decimalBuiltins noParams twoOpsGroup @ concat bs
            @ [''G0 Z5'', ''G0 X0 Y0'']"
    and l: "length hs = 2" "length bs = 2"
    and e: "\<And>i. i < 2 \<Longrightarrow>
              (\<exists>n. hs ! i = ''('' @ padStart (numToString decimalBuiltins (Fin (of_nat n))) 5
                              @ '' - '' @ basename (path (twoOpsGroup ! i)) @ '')'')
              \<and> (\<exists>c. bs ! i = [''G0 Z5'' @ [CHR 0x0A, CHR 0x0A]]
                                @ statsBlock decimalBuiltins c (twoOpsGroup ! i)
                                @ concat (map (memberText decimalBuiltins noParams
                                                 (snd twoOpsLoad) (twoOpsGroup ! i)) twoOpsGroup)
                                @ replicate 10 '''')"
    unfolding case_prod_beta g len by blast
  from e[of 0] e[of 1] b0 b1
  have e0: "\<exists>n. hs ! 0 = ''('' @ padStart (numToString decimalBuiltins (Fin (of_nat n))) 5
                          @ '' - '' @ ''op1.nc'' @ '')''"
    and e1: "\<exists>n. hs ! 1 = ''('' @ padStart (numToString decimalBuiltins (Fin (of_nat n))) 5
                          @ '' - '' @ ''op2.nc'' @ '')''"
    and e2: "\<exists>c. bs ! 0 = [''G0 Z5'' @ [CHR 0x0A, CHR 0x0A]]
                  @ statsBlock decimalBuiltins c (twoOpsGroup ! 0)
                  @ concat (map (memberText decimalBuiltins noParams (snd twoOpsLoad)
                                   (twoOpsGroup ! 0)) twoOpsGroup)
                  @ replicate 10 ''''"
    and e3: "\<exists>c. bs ! 1 = [''G0 Z5'' @ [CHR 0x0A, CHR 0x0A]]
                  @ statsBlock decimalBuiltins c (twoOpsGroup ! 1)
                  @ concat (map (memberText decimalBuiltins noParams (snd twoOpsLoad)
                                   (twoOpsGroup ! 1)) twoOpsGroup)
                  @ replicate 10 ''''"
    by simp_all
  from m l e0 e1 e2 e3
  have "\<exists>hs bs.
         snd (mergeBySetupAndTool decimalBuiltins noParams (fst twoOpsLoad) (snd twoOpsLoad) ! 0)
           = [''(MERGED)'', ''''] @ hs @ preamble decimalBuiltins noParams twoOpsGroup @ concat bs
             @ [''G0 Z5'', ''G0 X0 Y0'']
         \<and> length hs = 2 \<and> length bs = 2
         \<and> (\<exists>n. hs ! 0 = ''('' @ padStart (numToString decimalBuiltins (Fin (of_nat n))) 5
                          @ '' - '' @ ''op1.nc'' @ '')'')
         \<and> (\<exists>n. hs ! 1 = ''('' @ padStart (numToString decimalBuiltins (Fin (of_nat n))) 5
                          @ '' - '' @ ''op2.nc'' @ '')'')
         \<and> (\<exists>c. bs ! 0 = [''G0 Z5'' @ [CHR 0x0A, CHR 0x0A]]
                  @ statsBlock decimalBuiltins c (twoOpsGroup ! 0)
                  @ concat (map (memberText decimalBuiltins noParams (snd twoOpsLoad)
                                   (twoOpsGroup ! 0)) twoOpsGroup)
                  @ replicate 10 '''')
         \<and> (\<exists>c. bs ! 1 = [''G0 Z5'' @ [CHR 0x0A, CHR 0x0A]]
                  @ statsBlock decimalBuiltins c (twoOpsGroup ! 1)
                  @ concat (map (memberText decimalBuiltins noParams (snd twoOpsLoad)
                                   (twoOpsGroup ! 1)) twoOpsGroup)
                  @ replicate 10 '''')"
    by blast
  with h' p0 o0 n p o t show ?thesis by (intro conjI)
qed

section \<open>Tool dictionary and definition files\<close>

lemma firstToolDef_None: "firstToolDef ss = None \<longleftrightarrow> (\<forall>s \<in> set ss. toolDefMatch s = None)"
  by (induction ss) (auto split: option.splits)

lemma buildToolDictLoop_defFiles:
  "snd (buildToolDictLoop b rf ps (td, dfs))
     = dfs @ filter (\<lambda>p. toolKeyOf rf p \<noteq> None) ps"
  by (induction ps arbitrary: td dfs) (auto simp: toolKeyOf_def Let_def split: option.splits)

lemma buildToolDictLoop_dict:
  "fst (buildToolDictLoop b rf ps (td, dfs)) k
     = (case td k of
          Some e \<Rightarrow> Some e
        | None \<Rightarrow> (case filter (\<lambda>p. toolKeyOf rf p = Some k) ps of
                      [] \<Rightarrow> None
                    | p # _ \<Rightarrow> Some (toolEntryOf b rf p)))"
proof (induction ps arbitrary: td dfs)
  case Nil
  then show ?case by (simp split: option.splits)
next
  case (Cons p ps)
  show ?case
  proof (cases "firstToolDef (split_lines (rf p))")
    case None
    then have "toolKeyOf rf p = None" by (simp add: toolKeyOf_def)
    with None show ?thesis by (simp add: Cons.IH split: option.splits)
  next
    case (Some m)
    obtain m1 m2 where m: "m = (m1, m2)" by (cases m)
    show ?thesis
      using Some m
      by (auto simp: Cons.IH toolKeyOf_def toolEntryOf_def Let_def split: option.splits list.splits)
  qed
qed

lemma loadFiles_paths:
  "loadFiles b rf d ps st = (fos, st1) \<Longrightarrow> map path fos = filter (\<lambda>p. p \<notin> set d) ps"
proof (induction ps arbitrary: st fos st1)
  case Nil
  then show ?case by simp
next
  case (Cons p ps)
  show ?case
  proof (cases "p \<in> set d")
    case True
    with Cons show ?thesis by simp
  next
    case False
    obtain fo sa where a: "loadFile b p (rf p) st = (fo, sa)" by (metis surj_pair)
    obtain fs sb where c: "loadFiles b rf d ps sa = (fs, sb)" by (metis surj_pair)
    from Cons.prems False a c have "fos = fo # fs" by simp
    with loadFile_kind[OF a] Cons.IH[OF c] False show ?thesis by simp
  qed
qed

text \<open>
  C6. The definition files are the paths whose text has a line that matches the tool
  definition; each of them is left out of the loaded files. The dictionary maps a key to
  the entry of the first path, in the order of the enumeration, whose first definition
  line has that key: its diameter is the parsed number of that line, and later definitions
  of the key are ignored. In the example, the file with the line (T3 D=6.00 ...) is left
  out and the key T3 has the diameter 6.
\<close>

theorem tool_catalog:
  assumes "buildToolDict b readFile paths = (td, defFiles)"
  shows "defFiles = filter (\<lambda>p. toolKeyOf readFile p \<noteq> None) paths
         \<and> (\<forall>p \<in> set paths. (\<exists>s \<in> set (split_lines (readFile p)). toolDefMatch s \<noteq> None)
               \<longrightarrow> p \<in> set defFiles
                   \<and> p \<notin> set (map path (fst (loadFiles b readFile defFiles paths st))))
         \<and> (\<forall>k. td k = (case filter (\<lambda>p. toolKeyOf readFile p = Some k) paths of
                           [] \<Rightarrow> None
                         | p # _ \<Rightarrow> Some (toolEntryOf b readFile p)))
         \<and> fst (buildToolDict decimalBuiltins toolsDir [''op1.nc'', ''tools.nc'']) ''T3''
             = Some \<lparr>diameter = Fin 6, definitionFilename = ''tools.nc''\<rparr>
         \<and> map path (fst (loadFiles decimalBuiltins toolsDir
                             (snd (buildToolDict decimalBuiltins toolsDir [''op1.nc'', ''tools.nc'']))
                             [''op1.nc'', ''tools.nc''] emptyStore))
             = [''op1.nc'']"
proof -
  from assms have d: "defFiles = filter (\<lambda>p. toolKeyOf readFile p \<noteq> None) paths"
    using buildToolDictLoop_defFiles[of b readFile paths Map.empty "[]"]
    by (simp add: buildToolDict_def)
  from assms have t: "td k = (case filter (\<lambda>p. toolKeyOf readFile p = Some k) paths of
                           [] \<Rightarrow> None
                         | p # _ \<Rightarrow> Some (toolEntryOf b readFile p))" for k
    using buildToolDictLoop_dict[of b readFile paths Map.empty "[]" k]
    by (simp add: buildToolDict_def)
  have k: "toolKeyOf readFile p \<noteq> None" if "\<exists>s \<in> set (split_lines (readFile p)). toolDefMatch s \<noteq> None" for p
    using that firstToolDef_None[of "split_lines (readFile p)"]
    by (auto simp: toolKeyOf_def split: option.splits)
  obtain fos st1 where l: "loadFiles b readFile defFiles paths st = (fos, st1)" by (metis surj_pair)
  have x: "p \<in> set defFiles \<and> p \<notin> set (map path (fst (loadFiles b readFile defFiles paths st)))"
    if "p \<in> set paths" "\<exists>s \<in> set (split_lines (readFile p)). toolDefMatch s \<noteq> None" for p
  proof -
    from k[OF that(2)] that(1) d have "p \<in> set defFiles" by simp
    then show ?thesis using loadFiles_paths[OF l] l by simp
  qed
  have e1: "fst (buildToolDict decimalBuiltins toolsDir [''op1.nc'', ''tools.nc'']) ''T3''
             = Some \<lparr>diameter = Fin 6, definitionFilename = ''tools.nc''\<rparr>"
    by code_simp
  have e2: "map path (fst (loadFiles decimalBuiltins toolsDir
                             (snd (buildToolDict decimalBuiltins toolsDir [''op1.nc'', ''tools.nc'']))
                             [''op1.nc'', ''tools.nc''] emptyStore))
             = [''op1.nc'']"
    by code_simp
  from d t x e1 e2 show ?thesis by blast
qed

theorem tool_catalog_witness:
  "''tools.nc'' \<in> set [''op1.nc'', ''tools.nc'']
   \<and> (\<exists>s \<in> set (split_lines (toolsDir ''tools.nc'')). toolDefMatch s \<noteq> None)
   \<and> ''tools.nc'' \<in> set (snd (buildToolDict decimalBuiltins toolsDir [''op1.nc'', ''tools.nc'']))
   \<and> ''tools.nc'' \<notin> set (map path (fst (loadFiles decimalBuiltins toolsDir
          (snd (buildToolDict decimalBuiltins toolsDir [''op1.nc'', ''tools.nc'']))
          [''op1.nc'', ''tools.nc''] emptyStore)))"
proof -
  have run: "buildToolDict decimalBuiltins toolsDir [''op1.nc'', ''tools.nc'']
             = (fst (buildToolDict decimalBuiltins toolsDir [''op1.nc'', ''tools.nc'']),
                snd (buildToolDict decimalBuiltins toolsDir [''op1.nc'', ''tools.nc'']))"
    by simp
  have m: "''tools.nc'' \<in> set [''op1.nc'', ''tools.nc'']" by simp
  have d: "\<exists>s \<in> set (split_lines (toolsDir ''tools.nc'')). toolDefMatch s \<noteq> None"
    by code_simp
  from tool_catalog[OF run, of emptyStore] m d show ?thesis by blast
qed


section \<open>The feed-rate substitution\<close>

lemma upperF: "toUpperCase c = CHR ''F'' \<longleftrightarrow> c = CHR ''F'' \<or> c = CHR ''f''"
  by (auto simp: toUpperCase_def split: if_splits)

lemma digit_word: "isDigit c \<Longrightarrow> isWordChar c"
  by (auto simp: isDigit_def isWordChar_def)

lemma digit_notF: "isDigit c \<Longrightarrow> toUpperCase c \<noteq> CHR ''F''"
  by (auto simp: isDigit_def upperF)

lemma F_word: "toUpperCase c = CHR ''F'' \<Longrightarrow> isWordChar c"
  by (auto simp: upperF isWordChar_def)

lemma dot_kind: "\<not> isDigit CHR ''.''" "\<not> isWordChar CHR ''.''"
  by (simp_all add: isDigit_def isWordChar_def)


lemma replaceFeed_True [simp]:
  "replaceFeed r True (c # ys) = c # replaceFeed r (isWordChar c) ys"
  by simp

lemma replaceFeed_nonword:
  "\<not> isWordChar c \<Longrightarrow> replaceFeed r pw (c # ys) = c # replaceFeed r False ys"
  using F_word[of c] by auto

lemma replaceFeed_digit:
  "isDigit c \<Longrightarrow> replaceFeed r pw (c # ys) = c # replaceFeed r True ys"
  using digit_notF[of c] digit_word[of c] by auto

lemma replaceFeed_digits:
  "list_all isDigit ds \<Longrightarrow>
     replaceFeed r pw (ds @ xs) = ds @ replaceFeed r (pw \<or> ds \<noteq> []) xs"
proof (induction ds arbitrary: pw)
  case Nil
  then show ?case by simp
next
  case (Cons d ds)
  then have d: "isDigit d" "list_all isDigit ds" by simp_all
  show ?case
    using Cons.IH[OF d(2), of True]
    by (simp add: replaceFeed_digit[OF d(1)] del: replaceFeed.simps)
qed

text \<open>The result starts with a digit only if the text does.\<close>

lemma replaceFeed_no_digit_head:
  "takeWhile isDigit xs = [] \<Longrightarrow> takeWhile isDigit (replaceFeed (CHR ''F'' # t) pw xs) = []"
proof (cases xs)
  case Nil
  then show ?thesis by simp
next
  case (Cons c ys)
  assume "takeWhile isDigit xs = []"
  with Cons have nd: "\<not> isDigit c" by (simp split: if_splits)
  have nF: "\<not> isDigit CHR ''F''" by (simp add: isDigit_def)
  show ?thesis
    unfolding Cons using nd nF by (auto split: option.splits)
qed

lemma takeWhile_rest: "takeWhile P (dropWhile P xs) = []"
proof (cases "dropWhile P xs")
  case Nil
  show ?thesis unfolding Nil by simp
next
  case (Cons a list)
  with hd_dropWhile[of P xs] have "\<not> P a" by simp
  with Cons show ?thesis by simp
qed

lemma replaceFeed_takeWhile:
  "takeWhile isDigit (replaceFeed (CHR ''F'' # t) pw xs) = takeWhile isDigit xs"
proof -
  let ?ds = "takeWhile isDigit xs" and ?r1 = "dropWhile isDigit xs"
  have a: "list_all isDigit ?ds" by (simp add: list_all_iff) (meson set_takeWhileD)
  have "takeWhile isDigit ?r1 = []" by (rule takeWhile_rest)
  then have b: "takeWhile isDigit (replaceFeed (CHR ''F'' # t) (pw \<or> ?ds \<noteq> []) ?r1) = []"
    by (rule replaceFeed_no_digit_head)
  have "replaceFeed (CHR ''F'' # t) pw (?ds @ ?r1)
        = ?ds @ replaceFeed (CHR ''F'' # t) (pw \<or> ?ds \<noteq> []) ?r1"
    by (rule replaceFeed_digits[OF a])
  then have "takeWhile isDigit (replaceFeed (CHR ''F'' # t) pw xs)
             = takeWhile isDigit (?ds @ replaceFeed (CHR ''F'' # t) (pw \<or> ?ds \<noteq> []) ?r1)"
    by simp
  also have "\<dots> = ?ds"
    using a b by (simp add: takeWhile_append2 list_all_iff)
  finally show ?thesis .
qed

lemma replaceFeed_dropWhile:
  "dropWhile isDigit (replaceFeed (CHR ''F'' # t) pw xs)
     = replaceFeed (CHR ''F'' # t) (pw \<or> takeWhile isDigit xs \<noteq> []) (dropWhile isDigit xs)"
proof -
  let ?ds = "takeWhile isDigit xs" and ?r1 = "dropWhile isDigit xs"
  have a: "list_all isDigit ?ds" by (simp add: list_all_iff) (meson set_takeWhileD)
  have e: "replaceFeed (CHR ''F'' # t) pw xs
        = ?ds @ replaceFeed (CHR ''F'' # t) (pw \<or> ?ds \<noteq> []) ?r1"
    using replaceFeed_digits[OF a, of "CHR ''F'' # t" pw ?r1] by simp
  have "dropWhile isDigit (replaceFeed (CHR ''F'' # t) pw xs)
        = drop (length (takeWhile isDigit (replaceFeed (CHR ''F'' # t) pw xs)))
            (replaceFeed (CHR ''F'' # t) pw xs)"
    by (simp add: dropWhile_eq_drop)
  also have "\<dots> = drop (length ?ds) (replaceFeed (CHR ''F'' # t) pw xs)"
    by (simp add: replaceFeed_takeWhile)
  also have "\<dots> = replaceFeed (CHR ''F'' # t) (pw \<or> ?ds \<noteq> []) ?r1"
    by (subst e) simp
  finally show ?thesis .
qed

lemma boundary_replaceFeed_True:
  "boundaryAfterWord (replaceFeed r True xs) = boundaryAfterWord xs"
  by (cases xs) (simp_all add: boundaryAfterWord_def)

lemma boundary_nondigit:
  "boundaryAfterWord zs \<Longrightarrow> takeWhile isDigit zs = []"
  by (cases zs) (auto simp: boundaryAfterWord_def dest: digit_word)

lemma fracAhead_replaceFeed:
  "fracAhead (replaceFeed (CHR ''F'' # t) True xs) = fracAhead xs"
proof (cases xs)
  case Nil
  then show ?thesis by simp
next
  case (Cons c ys)
  show ?thesis
  proof (cases "c = CHR ''.''")
    case False
    then show ?thesis unfolding Cons by (simp add: fracAhead_def)
  next
    case True
    have o: "replaceFeed (CHR ''F'' # t) True xs = CHR ''.'' # replaceFeed (CHR ''F'' # t) False ys"
      unfolding Cons True by (simp add: dot_kind)
    show ?thesis
    proof (cases "takeWhile isDigit ys = []")
      case True
      then show ?thesis
        unfolding o unfolding Cons \<open>c = CHR ''.''\<close>
        by (simp add: fracAhead_def replaceFeed_takeWhile)
    next
      case False
      then show ?thesis
        unfolding o unfolding Cons \<open>c = CHR ''.''\<close>
        by (simp add: fracAhead_def replaceFeed_takeWhile replaceFeed_dropWhile
            boundary_replaceFeed_True del: replaceFeed.simps)
    qed
  qed
qed

lemma feedMatch_alt:
  "feedMatch cs =
     (if takeWhile isDigit cs = [] then None
      else if fracAhead (dropWhile isDigit cs)
      then Some (length (takeWhile isDigit cs) + 1
                 + length (takeWhile isDigit (drop 1 (dropWhile isDigit cs))))
      else if boundaryAfterWord (dropWhile isDigit cs) then Some (length (takeWhile isDigit cs))
      else None)"
  by (simp add: feedMatch_def fracAhead_def Let_def)

lemma feedMatch_None_replaceFeed:
  assumes "feedMatch cs = None"
  shows "feedMatch (replaceFeed (CHR ''F'' # t) True cs) = None"
  using assms
  by (simp add: feedMatch_alt replaceFeed_takeWhile replaceFeed_dropWhile fracAhead_replaceFeed
      boundary_replaceFeed_True split: if_splits del: replaceFeed.simps)

lemma drop_takeWhile_length: "drop (length (takeWhile P xs)) xs = dropWhile P xs"
  by (simp add: dropWhile_eq_drop)

lemma feedMatch_Some_rest:
  assumes "feedMatch cs = Some n"
  shows "(fracAhead (dropWhile isDigit cs)
            \<and> drop n cs = dropWhile isDigit (drop 1 (dropWhile isDigit cs)))
         \<or> (\<not> fracAhead (dropWhile isDigit cs) \<and> boundaryAfterWord (dropWhile isDigit cs)
            \<and> drop n cs = dropWhile isDigit cs)"
proof (cases "fracAhead (dropWhile isDigit cs)")
  case True
  with assms have n: "n = length (takeWhile isDigit cs) + (1
                 + length (takeWhile isDigit (drop 1 (dropWhile isDigit cs))))"
    by (simp add: feedMatch_alt split: if_splits)
  have "drop n cs = drop (length (takeWhile isDigit (drop 1 (dropWhile isDigit cs))))
                      (drop 1 (drop (length (takeWhile isDigit cs)) cs))"
    unfolding n by (simp add: add.commute)
  also have "\<dots> = dropWhile isDigit (drop 1 (dropWhile isDigit cs))"
    unfolding drop_takeWhile_length ..
  finally show ?thesis using True by simp
next
  case False
  with assms have "n = length (takeWhile isDigit cs)" "boundaryAfterWord (dropWhile isDigit cs)"
    by (simp_all add: feedMatch_alt split: if_splits)
  with False show ?thesis by (simp add: drop_takeWhile_length)
qed

lemma feedMatch_Some_boundary:
  "feedMatch cs = Some n \<Longrightarrow> boundaryAfterWord (drop n cs)"
  using feedMatch_Some_rest[of cs n] by (auto simp: fracAhead_def)

lemma takeWhile_all: "list_all P xs \<Longrightarrow> takeWhile P (xs @ ys) = xs @ takeWhile P ys"
  by (induction xs) auto

lemma dropWhile_all: "list_all P xs \<Longrightarrow> dropWhile P (xs @ ys) = dropWhile P ys"
  by (induction xs) auto

lemma takeWhile_is_all: "list_all P (takeWhile P xs)"
  by (induction xs) auto

lemma feedMatch_replacement:
  assumes "plainDecimal t" and "boundaryAfterWord out"
    and "hasFraction t \<or> \<not> fracAhead out"
  shows "feedMatch (t @ out) = Some (length t)"
proof -
  define ds where "ds = takeWhile isDigit t"
  define r where "r = dropWhile isDigit t"
  have t: "t = ds @ r" by (simp add: ds_def r_def)
  have dd: "list_all isDigit ds" unfolding ds_def by (rule takeWhile_is_all)
  from assms(1) have ne: "ds \<noteq> []" by (simp add: plainDecimal_def ds_def)
  from assms(2) have no: "takeWhile isDigit out = []" by (rule boundary_nondigit)
  then have dno: "dropWhile isDigit out = out"
    by (cases out) (auto split: if_splits)
  show ?thesis
  proof (cases "r = []")
    case True
    then have td: "list_all isDigit t" using dd t by simp
    then have nf: "\<not> hasFraction t"
      using dot_kind(1) by (auto simp: hasFraction_def list_all_iff)
    with assms(3) have "\<not> fracAhead out" by simp
    moreover have "takeWhile isDigit (t @ out) = t" "dropWhile isDigit (t @ out) = out"
      using td no dno by (simp_all add: takeWhile_all dropWhile_all)
    moreover have "t \<noteq> []" using ne t by simp
    ultimately show ?thesis
      using assms(2) by (simp add: feedMatch_alt)
  next
    case False
    with assms(1) obtain fs where r: "r = CHR ''.'' # fs" and fs: "fs \<noteq> []" "list_all isDigit fs"
      unfolding plainDecimal_def r_def[symmetric] by (cases r) auto
    have a: "takeWhile isDigit (t @ out) = ds"
      unfolding t r using dd by (simp add: takeWhile_all dot_kind)
    have b: "dropWhile isDigit (t @ out) = CHR ''.'' # fs @ out"
      unfolding t r using dd by (simp add: dropWhile_all dot_kind)
    have c: "takeWhile isDigit (fs @ out) = fs" "dropWhile isDigit (fs @ out) = out"
      using fs(2) no dno by (simp_all add: takeWhile_all dropWhile_all)
    have fa: "fracAhead (CHR ''.'' # fs @ out)"
      using c fs(1) assms(2) by (simp add: fracAhead_def)
    have lt: "length t = length ds + 1 + length fs"
      by (simp add: t r)
    show ?thesis
      unfolding feedMatch_alt a b lt using ne c fa by simp
  qed
qed

lemma plainDecimal_digits:
  assumes "plainDecimal t" and "\<not> hasFraction t"
  shows "t \<noteq> [] \<and> list_all isDigit t"
proof -
  from assms(1) have ne: "takeWhile isDigit t \<noteq> []" by (simp add: plainDecimal_def)
  have "dropWhile isDigit t = []"
  proof (rule ccontr)
    assume n: "dropWhile isDigit t \<noteq> []"
    with assms(1) have "take 1 (dropWhile isDigit t) = ''.''"
      unfolding plainDecimal_def by blast
    with n have "CHR ''.'' \<in> set (dropWhile isDigit t)"
      by (cases "dropWhile isDigit t") auto
    then have "CHR ''.'' \<in> set t" by (rule set_dropWhileD)
    with assms(2) show False by (simp add: hasFraction_def)
  qed
  then have "list_all isDigit t"
    by (simp add: list_all_iff dropWhile_eq_Nil_conv)
  with ne show ?thesis by auto
qed

lemma boundary_append:
  "boundaryAfterWord out \<Longrightarrow> boundaryAfterWord (zs @ out) = boundaryAfterWord zs"
  by (cases zs) (simp_all add: boundaryAfterWord_def)

lemma takeWhile_append_boundary:
  "boundaryAfterWord out \<Longrightarrow> takeWhile isDigit (ys @ out) = takeWhile isDigit ys"
  by (induction ys) (simp_all add: boundary_nondigit)

lemma dropWhile_append_boundary:
  "boundaryAfterWord out \<Longrightarrow> dropWhile isDigit (ys @ out) = dropWhile isDigit ys @ out"
proof (induction ys)
  case Nil
  from boundary_nondigit[OF Nil] show ?case
    by (cases out) (auto split: if_splits)
next
  case (Cons a ys)
  then show ?case by simp
qed

lemma fracAhead_append:
  assumes "xs \<noteq> []" and "boundaryAfterWord out"
  shows "fracAhead (xs @ out) = fracAhead xs"
proof -
  from assms(1) obtain c ys where xs: "xs = c # ys" by (cases xs) auto
  show ?thesis
    unfolding xs using assms(2)
    by (simp add: fracAhead_def takeWhile_append_boundary dropWhile_append_boundary
        boundary_append)
qed

text \<open>A text that goes on after its digits is matched in the same way with more behind it.\<close>

lemma feedMatch_append:
  assumes "dropWhile isDigit t \<noteq> []" and "boundaryAfterWord out"
  shows "feedMatch (t @ out) = feedMatch t"
proof -
  define r1 where "r1 = dropWhile isDigit t"
  from assms(1) obtain c ys where r1: "r1 = c # ys"
    unfolding r1_def by (cases "dropWhile isDigit t") auto
  have a: "takeWhile isDigit (t @ out) = takeWhile isDigit t"
    by (rule takeWhile_append_boundary[OF assms(2)])
  have b: "dropWhile isDigit (t @ out) = r1 @ out"
    unfolding r1_def by (rule dropWhile_append_boundary[OF assms(2)])
  have f: "fracAhead (r1 @ out) = fracAhead r1"
    by (rule fracAhead_append) (simp_all add: r1 assms(2))
  have l: "takeWhile isDigit (drop 1 (r1 @ out)) = takeWhile isDigit (drop 1 r1)"
    by (simp add: r1 takeWhile_append_boundary[OF assms(2)])
  have bd: "boundaryAfterWord (r1 @ out) = boundaryAfterWord r1"
    by (rule boundary_append[OF assms(2)])
  show ?thesis
    unfolding feedMatch_alt a b r1_def[symmetric] f l bd ..
qed

lemma feedMatch_None_append:
  assumes "feedMatch t = None" and "boundaryAfterWord out"
  shows "feedMatch (t @ out) = None"
proof (cases "dropWhile isDigit t = []")
  case False
  from feedMatch_append[OF False assms(2)] assms(1) show ?thesis by simp
next
  case True
  from assms(1)[unfolded feedMatch_alt True] have "takeWhile isDigit t = []"
    by (simp add: boundaryAfterWord_def split: if_splits)
  with True have "t = []"
    by (metis takeWhile_dropWhile_id append_Nil)
  with assms(2) show ?thesis
    by (simp add: feedMatch_alt boundary_nondigit)
qed

lemma feedMatch_partial:
  assumes "feedMatch t = Some n" and "\<not> plainDecimal t" and "boundaryAfterWord out"
  shows "n < length t \<and> feedMatch (t @ out) = Some n"
proof -
  define ds where "ds = takeWhile isDigit t"
  define r1 where "r1 = dropWhile isDigit t"
  have t: "t = ds @ r1" by (simp add: ds_def r1_def)
  from assms(1) have ne: "ds \<noteq> []"
    by (simp add: feedMatch_alt ds_def split: if_splits)
  from assms(2) ne have r1: "r1 \<noteq> []"
    by (auto simp: plainDecimal_def ds_def r1_def)
  from feedMatch_append[OF r1[unfolded r1_def] assms(3)] assms(1)
  have m: "feedMatch (t @ out) = Some n" by simp
  have "n < length t"
  proof (cases "fracAhead r1")
    case False
    with assms(1) have "n = length ds"
      by (simp add: feedMatch_alt ds_def r1_def split: if_splits)
    with r1 show ?thesis by (subst t) simp
  next
    case True
    define fs where "fs = takeWhile isDigit (drop 1 r1)"
    define r2 where "r2 = dropWhile isDigit (drop 1 r1)"
    from True obtain ys where ys: "r1 = CHR ''.'' # ys"
      by (cases r1) (auto simp: fracAhead_def)
    have d: "drop 1 r1 = fs @ r2" by (simp add: fs_def r2_def)
    from True assms(1) have n: "n = length ds + 1 + length fs"
      by (simp add: feedMatch_alt ds_def r1_def fs_def split: if_splits)
    have "r2 \<noteq> []"
    proof
      assume "r2 = []"
      moreover have "list_all isDigit fs"
        unfolding fs_def by (rule takeWhile_is_all)
      ultimately have "list_all isDigit (drop 1 r1)"
        using d by simp
      moreover from True have "drop 1 r1 \<noteq> []" by (auto simp: fracAhead_def)
      ultimately have "plainDecimal t"
        using ne ys by (simp add: plainDecimal_def ds_def[symmetric] r1_def[symmetric])
      with assms(2) show False by simp
    qed
    moreover have "length t = length ds + 1 + length fs + length r2"
      using d by (subst t) (simp add: ys)
    ultimately show ?thesis using n by simp
  qed
  with m show ?thesis by simp
qed

lemma feedMatch_digits_frac:
  assumes "t \<noteq> []" and "list_all isDigit t" and "fracAhead out"
  shows "feedMatch (t @ out)
           = Some (length t + 1 + length (takeWhile isDigit (drop 1 out)))"
proof -
  from assms(3) obtain ys where out: "out = CHR ''.'' # ys"
    by (cases out) (auto simp: fracAhead_def)
  have "takeWhile isDigit (t @ out) = t" "dropWhile isDigit (t @ out) = out"
    using assms(2) by (simp_all add: takeWhile_all dropWhile_all out dot_kind)
  with assms(1,3) show ?thesis by (simp add: feedMatch_alt)
qed

section \<open>Texts without a word that starts with F\<close>

lemma quiet_True: "quiet pw u \<Longrightarrow> quiet True u"
  by (cases u) simp_all

lemma quiet_append: "quiet pw (xs @ ys) \<Longrightarrow> quiet True ys"
proof (induction xs arbitrary: pw)
  case Nil
  then show ?case by (simp add: quiet_True)
next
  case (Cons a xs)
  from Cons.prems have "quiet (isWordChar a) (xs @ ys)" by simp
  then show ?case by (rule Cons.IH)
qed

lemma quiet_drop: "quiet pw t \<Longrightarrow> quiet True (drop n t)"
  using quiet_append[of pw "take n t" "drop n t"] by simp

lemma quiet_scan:
  "quiet pw u \<Longrightarrow>
     replaceFeed r pw (u @ ys) = u @ replaceFeed r (if u = [] then pw else isWordChar (last u)) ys"
proof (induction u arbitrary: pw)
  case Nil
  then show ?case by simp
next
  case (Cons c u)
  from Cons.prems have c: "pw \<or> toUpperCase c \<noteq> CHR ''F''" and q: "quiet (isWordChar c) u"
    by simp_all
  from c have "replaceFeed r pw ((c # u) @ ys) = c # replaceFeed r (isWordChar c) (u @ ys)"
    by auto
  with Cons.IH[OF q] show ?case by simp
qed

lemma closed_scan:
  assumes "closedText t"
  shows "replaceFeed r True (t @ ys) = t @ replaceFeed r True ys"
  using quiet_scan[of True t r ys] assms by (simp add: closedText_def)

lemma closed_drop_scan:
  assumes "closedText t" and "n < length t"
  shows "replaceFeed r True (drop n t @ ys) = drop n t @ replaceFeed r True ys"
proof -
  from assms(1) have "quiet True (drop n t)"
    using quiet_drop[of True t n] by (simp add: closedText_def)
  from quiet_scan[OF this, of r ys] assms show ?thesis
    by (simp add: closedText_def)
qed

section \<open>Idempotence\<close>

lemma matchRests_Nil:
  "matchRests pw s = [] \<Longrightarrow> replaceFeed r pw s = s"
proof (induction r pw s rule: replaceFeed.induct)
  case (1 r pw)
  then show ?case by simp
next
  case (2 r pw c cs)
  show ?case
  proof (cases "\<not> pw \<and> toUpperCase c = CHR ''F''")
    case False
    with "2.prems" have "matchRests (isWordChar c) cs = []" by auto
    from "2.IH"(3)[OF False this] False show ?thesis by auto
  next
    case True
    with "2.prems" have n: "feedMatch cs = None" and m: "matchRests (isWordChar c) cs = []"
      by (auto split: option.splits)
    from "2.IH"(1)[OF True n m] True n show ?thesis by simp
  qed
qed

text \<open>The text of the override is not matched.\<close>

lemma idem_unmatched:
  assumes "feedMatch t = None" and "closedText t" and "r = CHR ''F'' # t"
  shows "replaceFeed r pw (replaceFeed r pw s) = replaceFeed r pw s"
  using assms(3)
proof (induction r pw s rule: replaceFeed.induct)
  case (1 r pw)
  then show ?case by simp
next
  case (2 r pw c cs)
  note r = \<open>r = CHR ''F'' # t\<close>
  show ?case
  proof (cases "\<not> pw \<and> toUpperCase c = CHR ''F''")
    case False
    from "2.IH"(3)[OF False r]
    show ?thesis using False by auto
  next
    case True
    then have w: "isWordChar c" by (simp add: F_word)
    show ?thesis
    proof (cases "feedMatch cs")
      case None
      from "2.IH"(1)[OF True None r]
      have ih: "replaceFeed r True (replaceFeed r True cs) = replaceFeed r True cs"
        by (simp add: w)
      from None have n2: "feedMatch (replaceFeed r True cs) = None"
        unfolding r by (rule feedMatch_None_replaceFeed)
      have "replaceFeed r pw (c # cs) = c # replaceFeed r True cs"
        using True None w by simp
      moreover have "replaceFeed r pw (c # replaceFeed r True cs)
                     = c # replaceFeed r True (replaceFeed r True cs)"
        using True n2 w by simp
      ultimately show ?thesis by (simp only: ih)
    next
      case (Some n)
      define rest where "rest = drop n cs"
      define out where "out = replaceFeed r True rest"
      from "2.IH"(2)[OF True Some r]
      have ih: "replaceFeed r True out = out"
        by (simp add: out_def rest_def)
      have b: "boundaryAfterWord out"
        unfolding out_def boundary_replaceFeed_True rest_def
        by (rule feedMatch_Some_boundary[OF Some])
      have m: "feedMatch (t @ out) = None"
        by (rule feedMatch_None_append[OF assms(1) b])
      have first: "replaceFeed r pw (c # cs) = r @ out"
        using True Some by (simp add: out_def rest_def)
      have "replaceFeed r pw (r @ out) = CHR ''F'' # replaceFeed r True (t @ out)"
        using True m by (simp add: r upperF isWordChar_def)
      also have "\<dots> = r @ out"
        by (simp add: closed_scan[OF assms(2)] ih[unfolded r] r)
      finally show ?thesis by (simp only: first)
    qed
  qed
qed

text \<open>The text of the override is a plain decimal.\<close>

lemma idem_decimal:
  assumes "plainDecimal t"
    and "hasFraction t \<or> list_all (\<lambda>rest. \<not> fracAhead rest) (matchRests pw s)"
    and "r = CHR ''F'' # t"
  shows "replaceFeed r pw (replaceFeed r pw s) = replaceFeed r pw s"
  using assms
proof (induction r pw s rule: replaceFeed.induct)
  case (1 r pw)
  then show ?case by simp
next
  case (2 r pw c cs)
  note r = \<open>r = CHR ''F'' # t\<close>
  show ?case
  proof (cases "\<not> pw \<and> toUpperCase c = CHR ''F''")
    case False
    with "2.prems"(2)
    have sub: "hasFraction t \<or> list_all (\<lambda>rest. \<not> fracAhead rest) (matchRests (isWordChar c) cs)"
      by auto
    from "2.IH"(3)[OF False "2.prems"(1) sub r]
    show ?thesis using False by auto
  next
    case True
    then have w: "isWordChar c" by (simp add: F_word)
    show ?thesis
    proof (cases "feedMatch cs")
      case None
      with True "2.prems"(2)
      have sub: "hasFraction t
                 \<or> list_all (\<lambda>rest. \<not> fracAhead rest) (matchRests (isWordChar c) cs)"
        by auto
      from "2.IH"(1)[OF True None "2.prems"(1) sub r]
      have ih: "replaceFeed r True (replaceFeed r True cs) = replaceFeed r True cs"
        by (simp add: w)
      from None have n2: "feedMatch (replaceFeed r True cs) = None"
        unfolding r by (rule feedMatch_None_replaceFeed)
      have "replaceFeed r pw (c # cs) = c # replaceFeed r True cs"
        using True None w by simp
      moreover have "replaceFeed r pw (c # replaceFeed r True cs)
                     = c # replaceFeed r True (replaceFeed r True cs)"
        using True n2 w by simp
      ultimately show ?thesis by (simp only: ih)
    next
      case (Some n)
      define rest where "rest = drop n cs"
      define out where "out = replaceFeed r True rest"
      from True Some "2.prems"(2)
      have here: "hasFraction t \<or> \<not> fracAhead rest"
        and sub: "hasFraction t
                  \<or> list_all (\<lambda>rest. \<not> fracAhead rest) (matchRests True (drop n cs))"
        by (auto simp: rest_def)
      from "2.IH"(2)[OF True Some "2.prems"(1) sub r]
      have ih: "replaceFeed r True out = out"
        by (simp add: out_def rest_def)
      have b: "boundaryAfterWord out"
        unfolding out_def boundary_replaceFeed_True rest_def
        by (rule feedMatch_Some_boundary[OF Some])
      from here have f: "hasFraction t \<or> \<not> fracAhead out"
        unfolding out_def r fracAhead_replaceFeed .
      have m: "feedMatch (t @ out) = Some (length t)"
        by (rule feedMatch_replacement[OF "2.prems"(1) b f])
      have first: "replaceFeed r pw (c # cs) = r @ out"
        using True Some by (simp add: out_def rest_def)
      have "replaceFeed r pw (r @ out) = r @ replaceFeed r True (drop (length t) (t @ out))"
        using True m by (simp add: r upperF)
      also have "\<dots> = r @ out" by (simp add: ih)
      finally show ?thesis by (simp only: first)
    qed
  qed
qed

lemma replaceFeed_sufficient:
  assumes "idemCondition t s" and "r = CHR ''F'' # t"
  shows "replaceFeed r False (replaceFeed r False s) = replaceFeed r False s"
proof -
  from assms(1) consider "matchRests False s = []" | "feedMatch t = None \<and> closedText t"
    | "plainDecimal t
       \<and> (hasFraction t \<or> list_all (\<lambda>rest. \<not> fracAhead rest) (matchRests False s))"
    unfolding idemCondition_def by blast
  then show ?thesis
  proof cases
    case 1
    then show ?thesis by (simp add: matchRests_Nil del: replaceFeed.simps)
  next
    case 2
    then show ?thesis using idem_unmatched[OF _ _ assms(2)] by blast
  next
    case 3
    then show ?thesis using idem_decimal[OF _ _ assms(2)] by blast
  qed
qed

section \<open>The condition is necessary\<close>

lemma no_growth:
  assumes "\<And>z. g (u @ z) = u @ g z" and "u \<noteq> []"
  shows "u @ g out \<noteq> out"
proof (induction out rule: length_induct)
  case (1 out)
  show ?case
  proof
    assume e: "u @ g out = out"
    then have "length (g out) < length out"
      using assms(2) by (metis length_append length_greater_0_conv less_add_same_cancel2)
    with 1 have "u @ g (g out) \<noteq> g out" by blast
    moreover from e assms(1)[of "g out"] have "g out = u @ g (g out)" by simp
    ultimately show False by simp
  qed
qed

lemma no_fraction_growth:
  assumes "fs \<noteq> []" and "list_all isDigit fs"
  shows "replaceFeed (CHR ''F'' # t) True z \<noteq> CHR ''.'' # fs @ z"
proof (induction z rule: length_induct)
  case (1 z)
  let ?r = "CHR ''F'' # t"
  show ?case
  proof
    assume e: "replaceFeed ?r True z = CHR ''.'' # fs @ z"
    then obtain c0 z1 where z: "z = c0 # z1" by (cases z) auto
    from e have c0: "c0 = CHR ''.''" and e1: "replaceFeed ?r False z1 = fs @ CHR ''.'' # z1"
      unfolding z by (auto simp: dot_kind)
    define z2 where "z2 = dropWhile isDigit z1"
    have "takeWhile isDigit (replaceFeed ?r False z1) = takeWhile isDigit z1"
      by (rule replaceFeed_takeWhile)
    moreover have "takeWhile isDigit (fs @ CHR ''.'' # z1) = fs"
      using assms(2) by (simp add: takeWhile_all dot_kind)
    ultimately have tw: "takeWhile isDigit z1 = fs" using e1 by simp
    then have z1: "z1 = fs @ z2"
      unfolding z2_def by (metis takeWhile_dropWhile_id)
    have "replaceFeed ?r False (fs @ z2) = fs @ replaceFeed ?r True z2"
      using replaceFeed_digits[OF assms(2), of ?r False z2] assms(1) by simp
    with e1 have "replaceFeed ?r True z2 = CHR ''.'' # fs @ z2"
      unfolding z1 by simp
    moreover have "length z2 < length z" unfolding z z1 by simp
    ultimately show False using 1 by blast
  qed
qed

lemma idem_necessary:
  assumes "closedText t" and "feedMatch t = Some k" and "r = CHR ''F'' # t"
    and "replaceFeed r pw (replaceFeed r pw s) = replaceFeed r pw s"
    and "matchRests pw s \<noteq> []"
  shows "plainDecimal t
         \<and> (hasFraction t \<or> list_all (\<lambda>rest. \<not> fracAhead rest) (matchRests pw s))"
  using assms(3-5)
proof (induction r pw s rule: replaceFeed.induct)
  case (1 r pw)
  then show ?case by simp
next
  case (2 r pw c cs)
  note r = \<open>r = CHR ''F'' # t\<close>
  show ?case
  proof (cases "\<not> pw \<and> toUpperCase c = CHR ''F''")
    case False
    with "2.prems"(2)
    have i: "replaceFeed r (isWordChar c) (replaceFeed r (isWordChar c) cs)
             = replaceFeed r (isWordChar c) cs" by auto
    from False "2.prems"(3) have m: "matchRests (isWordChar c) cs \<noteq> []" by auto
    from "2.IH"(3)[OF False r i m] False show ?thesis by auto
  next
    case True
    then have w: "isWordChar c" by (simp add: F_word)
    show ?thesis
    proof (cases "feedMatch cs")
      case None
      from None have n2: "feedMatch (replaceFeed r True cs) = None"
        unfolding r by (rule feedMatch_None_replaceFeed)
      have "replaceFeed r pw (c # cs) = c # replaceFeed r True cs"
        using True None w by simp
      moreover have "replaceFeed r pw (c # replaceFeed r True cs)
                     = c # replaceFeed r True (replaceFeed r True cs)"
        using True n2 w by simp
      ultimately have i: "replaceFeed r (isWordChar c) (replaceFeed r (isWordChar c) cs)
             = replaceFeed r (isWordChar c) cs"
        using "2.prems"(2) w by (simp del: replaceFeed.simps)
      from True None "2.prems"(3) have m: "matchRests (isWordChar c) cs \<noteq> []" by simp
      from "2.IH"(1)[OF True None r i m] True None show ?thesis by simp
    next
      case (Some n)
      define rest where "rest = drop n cs"
      define out where "out = replaceFeed r True rest"
      have b: "boundaryAfterWord out"
        unfolding out_def boundary_replaceFeed_True rest_def
        by (rule feedMatch_Some_boundary[OF Some])
      have first: "replaceFeed r pw (c # cs) = r @ out"
        using True Some by (simp add: out_def rest_def)
      with "2.prems"(2) have again: "replaceFeed r pw (r @ out) = r @ out"
        by (simp del: replaceFeed.simps)
      have mr: "matchRests pw (c # cs) = rest # matchRests True rest"
        using True Some by (simp add: rest_def)
      have pd: "plainDecimal t"
      proof (rule ccontr)
        assume np: "\<not> plainDecimal t"
        from feedMatch_partial[OF assms(2) np b]
        have k: "k < length t" and m: "feedMatch (t @ out) = Some k" by simp_all
        have "replaceFeed r pw (r @ out) = r @ replaceFeed r True (drop k t @ out)"
          using True m k by (simp add: r upperF)
        also have "\<dots> = r @ drop k t @ replaceFeed r True out"
          by (simp add: closed_drop_scan[OF assms(1) k])
        finally have "drop k t @ replaceFeed r True out = out"
          using again by simp
        moreover have "drop k t @ replaceFeed r True out \<noteq> out"
        proof (rule no_growth)
          show "replaceFeed r True (drop k t @ z) = drop k t @ replaceFeed r True z" for z
            by (rule closed_drop_scan[OF assms(1) k])
          show "drop k t \<noteq> []" using k by simp
        qed
        ultimately show False by simp
      qed
      have "list_all (\<lambda>rest. \<not> fracAhead rest) (rest # matchRests True rest)"
        if nf: "\<not> hasFraction t"
      proof -
        from plainDecimal_digits[OF pd nf] have t: "t \<noteq> []" "list_all isDigit t" by simp_all
        have nfa: "\<not> fracAhead rest"
        proof
          assume "fracAhead rest"
          then have fa: "fracAhead out"
            unfolding out_def r fracAhead_replaceFeed .
          define fs where "fs = takeWhile isDigit (drop 1 out)"
          define z where "z = dropWhile isDigit (drop 1 out)"
          from fa obtain ys where ys: "out = CHR ''.'' # ys"
            by (cases out) (auto simp: fracAhead_def)
          have o: "out = CHR ''.'' # fs @ z"
            by (simp add: ys fs_def z_def)
          from fa have fs: "fs \<noteq> []" "list_all isDigit fs"
            by (simp_all add: fracAhead_def fs_def takeWhile_is_all)
          from feedMatch_digits_frac[OF t fa]
          have m: "feedMatch (t @ out) = Some (length t + 1 + length fs)"
            by (simp add: fs_def)
          have "drop (length t + 1 + length fs) (t @ out) = z"
            by (subst o) simp
          then have "replaceFeed r pw (r @ out) = r @ replaceFeed r True z"
            using True m by (simp add: r upperF)
          with again have "replaceFeed r True z = CHR ''.'' # fs @ z"
            by (simp add: o[symmetric])
          with no_fraction_growth[OF fs, of t z] show False by (simp add: r)
        qed
        from feedMatch_replacement[OF pd b] nfa
        have m: "feedMatch (t @ out) = Some (length t)"
          unfolding out_def r fracAhead_replaceFeed by simp
        have "replaceFeed r pw (r @ out) = r @ replaceFeed r True (drop (length t) (t @ out))"
          using True m by (simp add: r upperF)
        with again have i: "replaceFeed r True (replaceFeed r True rest) = replaceFeed r True rest"
          by (simp add: out_def)
        have "list_all (\<lambda>rest. \<not> fracAhead rest) (matchRests True rest)"
        proof (cases "matchRests True rest = []")
          case True
          then show ?thesis by simp
        next
          case False
          from "2.IH"(2)[OF True Some r i[unfolded rest_def] False[unfolded rest_def]] nf
          show ?thesis by (simp add: rest_def)
        qed
        with nfa show ?thesis by simp
      qed
      with pd show ?thesis unfolding mr by blast
    qed
  qed
qed

text \<open>
  C9, as stated, fails: with the override 500, the line G1 X1 F1.2.3 becomes
  G1 X1 F500.3, and a second substitution makes it G1 X1 F500.
\<close>

theorem feed_rate_not_idempotent:
  "processFeedRate decimalBuiltins feed500 ''G1 X1 F1.2.3'' = ''G1 X1 F500.3''
   \<and> processFeedRate decimalBuiltins feed500
        (processFeedRate decimalBuiltins feed500 ''G1 X1 F1.2.3'') = ''G1 X1 F500''"
  by code_simp

text \<open>
  The text of the override matters too: the text 1.5e-7 is matched again up to its point.
\<close>

lemma feed_rate_exponent_override:
  "processFeedRate tinyBuiltins feedTiny ''F100'' = ''F1.5e-7''
   \<and> processFeedRate tinyBuiltins feedTiny ''F1.5e-7'' = ''F1.5e-7.5e-7''"
  by code_simp

text \<open>
  C9, amended. Without an override the substitution changes nothing. With an override of
  text \<open>t\<close>, the substitution is idempotent on a line whenever the line has no match, or
  \<open>t\<close> is a closed text that no match takes a part of, or \<open>t\<close> is a plain decimal that
  has a fraction, or \<open>t\<close> is a plain decimal and no match of the line is followed by a
  fraction. For a closed text, as the language gives for every number, the substitution is
  idempotent on no other line.
\<close>

theorem feed_rate_idempotent:
  "(fr ps = None \<longrightarrow> processFeedRate b ps line = line)
   \<and> (\<forall>v. fr ps = Some v \<and> idemCondition (numToString b v) line \<longrightarrow>
          processFeedRate b ps (processFeedRate b ps line) = processFeedRate b ps line)
   \<and> (\<forall>v. fr ps = Some v \<and> closedText (numToString b v)
            \<and> processFeedRate b ps (processFeedRate b ps line) = processFeedRate b ps line \<longrightarrow>
          idemCondition (numToString b v) line)"
proof (intro conjI allI impI)
  assume "fr ps = None"
  then show "processFeedRate b ps line = line" by (simp add: processFeedRate_def)
next
  fix v
  assume a: "fr ps = Some v \<and> idemCondition (numToString b v) line"
  then have s: "fr ps = Some v" and c: "idemCondition (numToString b v) line" by blast+
  from replaceFeed_sufficient[OF c refl]
  show "processFeedRate b ps (processFeedRate b ps line) = processFeedRate b ps line"
    by (simp add: processFeedRate_def s del: replaceFeed.simps)
next
  fix v
  define t where "t = numToString b v"
  assume a: "fr ps = Some v \<and> closedText (numToString b v)
            \<and> processFeedRate b ps (processFeedRate b ps line) = processFeedRate b ps line"
  then have s: "fr ps = Some v" and c: "closedText t"
    and i0: "processFeedRate b ps (processFeedRate b ps line) = processFeedRate b ps line"
    unfolding t_def by blast+
  from i0 have i: "replaceFeed (CHR ''F'' # t) False (replaceFeed (CHR ''F'' # t) False line)
            = replaceFeed (CHR ''F'' # t) False line"
    by (simp add: processFeedRate_def s t_def del: replaceFeed.simps)
  show "idemCondition (numToString b v) line"
  proof (cases "matchRests False line = [] \<or> feedMatch t = None")
    case True
    with c show ?thesis by (auto simp: idemCondition_def t_def)
  next
    case False
    then obtain k where k: "feedMatch t = Some k" and m: "matchRests False line \<noteq> []"
      by auto
    from idem_necessary[OF c k refl i m] show ?thesis
      by (simp add: idemCondition_def t_def)
  qed
qed

theorem feed_rate_idempotent_witness:
  "fr noParams = None
   \<and> processFeedRate decimalBuiltins noParams ''G1 X1 F100'' = ''G1 X1 F100''
   \<and> fr feedMinus3 = Some (Fin (- 3))
   \<and> numToString decimalBuiltins (Fin (- 3)) = ''-3''
   \<and> idemCondition ''-3'' ''G1 X1 F1.2.3''
   \<and> processFeedRate decimalBuiltins feedMinus3 ''G1 X1 F1.2.3'' = ''G1 X1 F-3.3''
   \<and> processFeedRate decimalBuiltins feedMinus3
        (processFeedRate decimalBuiltins feedMinus3 ''G1 X1 F1.2.3'')
       = processFeedRate decimalBuiltins feedMinus3 ''G1 X1 F1.2.3''
   \<and> fr feed500 = Some (Fin 500)
   \<and> numToString decimalBuiltins (Fin 500) = ''500''
   \<and> closedText ''500''
   \<and> processFeedRate decimalBuiltins feed500 ''G1 X1.2.3 F100'' = ''G1 X1.2.3 F500''
   \<and> processFeedRate decimalBuiltins feed500
        (processFeedRate decimalBuiltins feed500 ''G1 X1.2.3 F100'')
       = processFeedRate decimalBuiltins feed500 ''G1 X1.2.3 F100''
   \<and> idemCondition ''500'' ''G1 X1.2.3 F100''
   \<and> \<not> idemCondition ''500'' ''G1 X1 F1.2.3''"
proof -
  have n: "fr noParams = None" by (simp add: noParams_def)
  from feed_rate_idempotent[where ps = noParams and b = decimalBuiltins and line = "''G1 X1 F100''"] n
  have n1: "processFeedRate decimalBuiltins noParams ''G1 X1 F100'' = ''G1 X1 F100''" by blast
  have f3: "fr feedMinus3 = Some (Fin (- 3))" by (simp add: feedMinus3_def)
  have t3: "numToString decimalBuiltins (Fin (- 3)) = ''-3''" by code_simp
  have c3: "idemCondition ''-3'' ''G1 X1 F1.2.3''" by code_simp
  have v3: "processFeedRate decimalBuiltins feedMinus3 ''G1 X1 F1.2.3'' = ''G1 X1 F-3.3''"
    by code_simp
  from feed_rate_idempotent[where ps = feedMinus3 and b = decimalBuiltins
      and line = "''G1 X1 F1.2.3''"] f3 c3
  have i3: "processFeedRate decimalBuiltins feedMinus3
        (processFeedRate decimalBuiltins feedMinus3 ''G1 X1 F1.2.3'')
       = processFeedRate decimalBuiltins feedMinus3 ''G1 X1 F1.2.3''"
    unfolding t3[symmetric] by blast
  have f5: "fr feed500 = Some (Fin 500)" by (simp add: feed500_def)
  have t5: "numToString decimalBuiltins (Fin 500) = ''500''" by code_simp
  have c5: "closedText ''500''" by code_simp
  have v5: "processFeedRate decimalBuiltins feed500 ''G1 X1.2.3 F100'' = ''G1 X1.2.3 F500''"
    by code_simp
  have i5: "processFeedRate decimalBuiltins feed500
        (processFeedRate decimalBuiltins feed500 ''G1 X1.2.3 F100'')
       = processFeedRate decimalBuiltins feed500 ''G1 X1.2.3 F100''"
    by code_simp
  from feed_rate_idempotent[where ps = feed500 and b = decimalBuiltins
      and line = "''G1 X1.2.3 F100''"] f5 c5 i5
  have k5: "idemCondition ''500'' ''G1 X1.2.3 F100''"
    unfolding t5[symmetric] by blast
  have x5: "\<not> idemCondition ''500'' ''G1 X1 F1.2.3''" by code_simp
  from n n1 f3 t3 c3 v3 i3 f5 t5 c5 v5 i5 k5 x5 show ?thesis by (intro conjI)
qed

end
